theory Spec2Isabelle
  imports Complex_Main "HOL-Library.Product_Lexorder" "HOL-Library.Multiset"
begin

section \<open>Vector store (app/services/vector\_store.py)\<close>

subsection \<open>Errors and NumPy arrays\<close>

text \<open>
  Exceptions are values. \<open>VectorStoreError\<close> is the application's own exception
  (app/core/exceptions.py); the others are raised by NumPy or by Python list indexing.
\<close>

datatype error = ValueError | AxisError | TypeError | IndexError | VectorStoreError

text \<open>
  The arrays the store can hold. \<open>Arr2 d rows\<close> is a two-dimensional float array of shape
  \<open>(length rows, d)\<close>; \<open>Arr1 xs\<close> is a one-dimensional float array (\<open>np.array([])\<close> is
  \<open>Arr1 []\<close>); \<open>ObjArr\<close> stands for an object array that holds \<open>None\<close>, which is what
  \<open>np.savez\<close> writes when it is handed \<open>embeddings=None\<close>. Components are exact reals:
  a stored component is a finite double, taken as the real number it denotes.
\<close>

datatype ndarray = ObjArr | Arr1 "real list" | Arr2 nat "real list list"

text \<open>
  \<open>np.array(embeddings)\<close> for a list of lists of floats: the empty list gives a
  one-dimensional empty array, rows of one common length a two-dimensional array, and
  ragged rows raise \<open>ValueError\<close> (inhomogeneous shape).
\<close>

fun np_array :: "real list list \<Rightarrow> error + ndarray" where
  "np_array [] = Inr (Arr1 [])"
| "np_array (r # rs) =
     (if \<forall>x \<in> set rs. length x = length r then Inr (Arr2 (length r) (r # rs))
      else Inl ValueError)"

text \<open>
  \<open>np.vstack([a, b])\<close>: both arguments are made at least two-dimensional (a
  one-dimensional array of length \<open>k\<close> becomes one row of \<open>k\<close> columns, the object array
  holding \<open>None\<close> one row of one column) and stacked when the column counts agree;
  otherwise NumPy raises \<open>ValueError\<close>. Stacking with an object array gives an object array.
\<close>

fun ncols :: "ndarray \<Rightarrow> nat" where
  "ncols ObjArr = 1"
| "ncols (Arr1 xs) = length xs"
| "ncols (Arr2 d rows) = d"

fun atleast_2d_rows :: "ndarray \<Rightarrow> real list list" where
  "atleast_2d_rows ObjArr = []"
| "atleast_2d_rows (Arr1 xs) = [xs]"
| "atleast_2d_rows (Arr2 d rows) = rows"

definition vstack :: "ndarray \<Rightarrow> ndarray \<Rightarrow> error + ndarray" where
  "vstack a b =
     (if ncols a \<noteq> ncols b then Inl ValueError
      else if a = ObjArr \<or> b = ObjArr then Inr ObjArr
      else Inr (Arr2 (ncols a) (atleast_2d_rows a @ atleast_2d_rows b)))"

subsection \<open>The store\<close>

type_synonym 'v dict = "(string \<times> 'v) list"

record 'v vector_store =
  collection_name :: string
  persist_directory :: string
  documents :: "string list"
  embeddings :: "ndarray option"
  metadatas :: "'v dict list"
  ids :: "string list"

text \<open>
  \<open>add_documents\<close>. The argument \<open>uuid4\<close> gives the identifiers drawn when \<open>ids\<close> is
  \<open>None\<close>: \<open>uuid4 k\<close> is the one drawn for the \<open>k\<close>-th document. An exception leaves the
  store as it was (both \<open>np.array\<close> and \<open>np.vstack\<close> run before the first assignment), so
  the error case carries no state.
\<close>

definition add_documents ::
  "(nat \<Rightarrow> string) \<Rightarrow> 'v vector_store \<Rightarrow> string list \<Rightarrow> real list list \<Rightarrow>
     'v dict list option \<Rightarrow> string list option \<Rightarrow> error + (string list \<times> 'v vector_store)"
where
  "add_documents uuid4 s docs embs metas_opt ids_opt =
     (if docs = [] then Inr ([], s)
      else
        let new_ids = (case ids_opt of None \<Rightarrow> map uuid4 [0..<length docs] | Some i \<Rightarrow> i);
            new_metas = (case metas_opt of None \<Rightarrow> map (\<lambda>_. []) docs | Some m \<Rightarrow> m)
        in case np_array embs of
             Inl e \<Rightarrow> Inl e
           | Inr new_embeddings \<Rightarrow>
               (case (case embeddings s of
                        None \<Rightarrow> Inr new_embeddings
                      | Some old \<Rightarrow> vstack old new_embeddings) of
                  Inl e \<Rightarrow> Inl e
                | Inr stacked \<Rightarrow>
                    Inr (new_ids,
                         s\<lparr>embeddings := Some stacked,
                           documents := documents s @ docs,
                           metadatas := metadatas s @ new_metas,
                           ids := ids s @ new_ids\<rparr>)))"

text \<open>
  The invariant of the data model: the four parallel sequences have one length and every
  stored vector has the collection's dimension.
\<close>

definition wf_store :: "'v vector_store \<Rightarrow> bool" where
  "wf_store s =
     (length (metadatas s) = length (documents s) \<and> length (ids s) = length (documents s) \<and>
      (case embeddings s of
         None \<Rightarrow> documents s = []
       | Some (Arr2 d rows) \<Rightarrow>
           length rows = length (documents s) \<and> (\<forall>r \<in> set rows. length r = d)
       | Some _ \<Rightarrow> False))"

subsection \<open>Similarity search\<close>

text \<open>
  A double is a finite number, an infinity or NaN (the two signed zeros are not told
  apart). NumPy's arithmetic raises nothing: a division by zero only warns and gives an
  infinity or, for \<open>0.0 / 0.0\<close>, NaN.
\<close>

datatype fl = Fin real | PInf | NInf | NaN

text \<open>
  What the model leaves to NumPy and the machine: \<open>rounding x\<close> is the double an
  arithmetic operation returns when its exact result is \<open>x\<close> (the nearest double, an
  infinity on overflow), and \<open>argsort\<close> is \<open>np.argsort\<close>.
\<close>

record numpy =
  rounding :: "real \<Rightarrow> fl"
  argsort :: "fl list \<Rightarrow> nat list"

text \<open>The arithmetic of doubles: the special cases of IEEE 754, and rounding otherwise.\<close>

fun fl_mul :: "(real \<Rightarrow> fl) \<Rightarrow> fl \<Rightarrow> fl \<Rightarrow> fl" where
  "fl_mul r NaN _ = NaN"
| "fl_mul r _ NaN = NaN"
| "fl_mul r (Fin a) (Fin b) = r (a * b)"
| "fl_mul r (Fin a) PInf = (if a = 0 then NaN else if 0 < a then PInf else NInf)"
| "fl_mul r (Fin a) NInf = (if a = 0 then NaN else if 0 < a then NInf else PInf)"
| "fl_mul r PInf (Fin b) = (if b = 0 then NaN else if 0 < b then PInf else NInf)"
| "fl_mul r NInf (Fin b) = (if b = 0 then NaN else if 0 < b then NInf else PInf)"
| "fl_mul r PInf PInf = PInf"
| "fl_mul r PInf NInf = NInf"
| "fl_mul r NInf PInf = NInf"
| "fl_mul r NInf NInf = PInf"

fun fl_add :: "(real \<Rightarrow> fl) \<Rightarrow> fl \<Rightarrow> fl \<Rightarrow> fl" where
  "fl_add r NaN _ = NaN"
| "fl_add r _ NaN = NaN"
| "fl_add r (Fin a) (Fin b) = r (a + b)"
| "fl_add r (Fin a) PInf = PInf"
| "fl_add r (Fin a) NInf = NInf"
| "fl_add r PInf (Fin b) = PInf"
| "fl_add r NInf (Fin b) = NInf"
| "fl_add r PInf PInf = PInf"
| "fl_add r NInf NInf = NInf"
| "fl_add r PInf NInf = NaN"
| "fl_add r NInf PInf = NaN"

fun fl_div :: "(real \<Rightarrow> fl) \<Rightarrow> fl \<Rightarrow> fl \<Rightarrow> fl" where
  "fl_div r NaN _ = NaN"
| "fl_div r _ NaN = NaN"
| "fl_div r (Fin a) (Fin b) =
     (if b = 0 then (if a = 0 then NaN else if 0 < a then PInf else NInf) else r (a / b))"
| "fl_div r (Fin a) PInf = Fin 0"
| "fl_div r (Fin a) NInf = Fin 0"
| "fl_div r PInf (Fin b) = (if 0 \<le> b then PInf else NInf)"
| "fl_div r NInf (Fin b) = (if 0 \<le> b then NInf else PInf)"
| "fl_div r PInf PInf = NaN"
| "fl_div r PInf NInf = NaN"
| "fl_div r NInf PInf = NaN"
| "fl_div r NInf NInf = NaN"

fun fl_sqrt :: "(real \<Rightarrow> fl) \<Rightarrow> fl \<Rightarrow> fl" where
  "fl_sqrt r (Fin a) = (if a < 0 then NaN else r (sqrt a))"
| "fl_sqrt r PInf = PInf"
| "fl_sqrt r NInf = NaN"
| "fl_sqrt r NaN = NaN"

text \<open>
  \<open>np.linalg.norm\<close> of one vector of doubles: the square root of the sum of the squares,
  every operation rounded (the sum is taken from left to right).
\<close>

definition linalg_norm :: "numpy \<Rightarrow> real list \<Rightarrow> fl" where
  "linalg_norm np v =
     fl_sqrt (rounding np)
       (foldl (fl_add (rounding np)) (Fin 0)
          (map (\<lambda>x. fl_mul (rounding np) (Fin x) (Fin x)) v))"

text \<open>\<open>v / np.linalg.norm(v)\<close>: every component is divided by the norm, with no guard.\<close>

definition normalized :: "numpy \<Rightarrow> real list \<Rightarrow> fl list" where
  "normalized np v =
     (let n = linalg_norm np v in map (\<lambda>x. fl_div (rounding np) (Fin x) n) v)"

text \<open>One entry of \<open>np.dot(doc_norms, query_norm)\<close>: the inner product of a row and the query.\<close>

definition dot :: "numpy \<Rightarrow> fl list \<Rightarrow> fl list \<Rightarrow> fl" where
  "dot np r q = foldl (fl_add (rounding np)) (Fin 0) (map2 (fl_mul (rounding np)) r q)"

text \<open>
  The order \<open>np.argsort\<close> sorts by: the order of the numbers between the infinities, and
  NaN above them all.
\<close>

fun sort_position :: "fl \<Rightarrow> nat \<times> real" where
  "sort_position NInf = (0, 0)"
| "sort_position (Fin x) = (1, x)"
| "sort_position PInf = (2, 0)"
| "sort_position NaN = (3, 0)"

definition fl_le :: "fl \<Rightarrow> fl \<Rightarrow> bool" where
  "fl_le a b = (sort_position a \<le> sort_position b)"

text \<open>
  What every sorting kind of \<open>np.argsort\<close> guarantees on the array \<open>xs\<close>: the result
  lists each index once, in ascending order of the values. The default kind is not stable,
  so nothing is said about the order of indices with equal values.
\<close>

definition valid_argsort :: "numpy \<Rightarrow> fl list \<Rightarrow> bool" where
  "valid_argsort np xs =
     (mset (argsort np xs) = mset [0..<length xs] \<and>
      sorted (map (\<lambda>i. sort_position (xs ! i)) (argsort np xs)))"

text \<open>The slice \<open>xs[:k]\<close>; a negative \<open>k\<close> drops the last \<open>-k\<close> elements.\<close>

definition slice_to :: "int \<Rightarrow> 'a list \<Rightarrow> 'a list" where
  "slice_to k xs = (if 0 \<le> k then take (nat k) xs else take (length xs - nat (- k)) xs)"

record 'v search_result =
  result_id :: string
  content :: string
  metadata :: "'v dict"
  score :: fl

text \<open>
  The loop that builds the results evaluates the subscripts of \<open>_ids\<close>, \<open>_documents\<close>
  and \<open>_metadatas\<close>; an index past the end of one of them raises \<open>IndexError\<close>.
\<close>

fun collect_results ::
  "'v vector_store \<Rightarrow> fl list \<Rightarrow> nat list \<Rightarrow> error + 'v search_result list" where
  "collect_results s sims [] = Inr []"
| "collect_results s sims (idx # rest) =
     (if idx < length (ids s) \<and> idx < length (documents s) \<and> idx < length (metadatas s)
      then (case collect_results s sims rest of
              Inl e \<Rightarrow> Inl e
            | Inr rs \<Rightarrow>
                Inr (\<lparr>result_id = ids s ! idx, content = documents s ! idx,
                      metadata = metadatas s ! idx, score = sims ! idx\<rparr> # rs))
      else Inl IndexError)"

definition similarities :: "numpy \<Rightarrow> real list list \<Rightarrow> real list \<Rightarrow> fl list" where
  "similarities np rows query_embedding =
     (let query_norm = normalized np query_embedding;
          doc_norms = map (normalized np) rows
      in map (\<lambda>r. dot np r query_norm) doc_norms)"

definition top_indices :: "numpy \<Rightarrow> fl list \<Rightarrow> int \<Rightarrow> nat list" where
  "top_indices np sims top_k = slice_to top_k (rev (argsort np sims))"

text \<open>
  \<open>search\<close>. The norm along axis 1 needs a two-dimensional array (\<open>AxisError\<close> on a
  one-dimensional one, \<open>TypeError\<close> on the object array), and \<open>np.dot\<close> needs the query
  to have as many components as the stored rows (\<open>ValueError\<close>).
\<close>

definition search ::
  "numpy \<Rightarrow> 'v vector_store \<Rightarrow> real list \<Rightarrow> int \<Rightarrow> error + 'v search_result list" where
  "search np s query_embedding top_k =
     (case embeddings s of
        None \<Rightarrow> Inr []
      | Some emb \<Rightarrow>
          if length (documents s) = 0 then Inr []
          else (case emb of
                  ObjArr \<Rightarrow> Inl TypeError
                | Arr1 xs \<Rightarrow> Inl AxisError
                | Arr2 d rows \<Rightarrow>
                    if length query_embedding \<noteq> d then Inl ValueError
                    else let sims = similarities np rows query_embedding
                         in collect_results s sims (top_indices np sims top_k)))"

text \<open>
  The insertion sort that the default kind of \<open>np.argsort\<close> performs on an array of at
  most 16 elements: an index moves to the left past the indices of greater values only.
\<close>

definition argsort_insertion :: "fl list \<Rightarrow> nat list" where
  "argsort_insertion xs = sort_key (\<lambda>i. sort_position (xs ! i)) [0..<length xs]"

section \<open>Text processor (app/services/text\_processor.py)\<close>

subsection \<open>Strings\<close>

text \<open>
  A string is a list of characters with code points below 256. \<open>isspace\<close> is the
  whitespace test shared by the pattern \<open>\s\<close> of \<open>re\<close> and by \<open>str.strip()\<close>: tab, line feed,
  vertical tab, form feed, carriage return, the separators 28 to 31, the space, and the
  code points 133 and 160.
\<close>

definition isspace :: "char \<Rightarrow> bool" where
  "isspace c = (of_char c \<in> {9, 10, 11, 12, 13, 28, 29, 30, 31, 32, 133, 160 :: nat})"

abbreviation newline :: char where
  "newline \<equiv> CHR 0x0A"

abbreviation space :: char where
  "space \<equiv> CHR '' ''"

text \<open>\<open>s.strip()\<close>: whitespace is removed from both ends.\<close>

definition py_strip :: "string \<Rightarrow> string" where
  "py_strip s = rev (dropWhile isspace (rev (dropWhile isspace s)))"

text \<open>\<open>re.sub(r"\s+", " ", text)\<close>: every maximal run of whitespace becomes one space.\<close>

function collapse_whitespace :: "string \<Rightarrow> string" where
  "collapse_whitespace [] = []"
| "collapse_whitespace (c # cs) =
     (if isspace c then space # collapse_whitespace (dropWhile isspace cs)
      else c # collapse_whitespace cs)"
  by pat_completeness auto
termination
  by (relation "measure length") (auto simp: le_imp_less_Suc length_dropWhile_le)

text \<open>
  \<open>re.sub(r"\n{3,}", "\n\n", text)\<close>: every maximal run of three or more line feeds
  becomes two line feeds.
\<close>

function collapse_newlines :: "string \<Rightarrow> string" where
  "collapse_newlines [] = []"
| "collapse_newlines (c # cs) =
     (if c = newline
      then (let run = c # takeWhile (\<lambda>x. x = newline) cs
            in (if 3 \<le> length run then [newline, newline] else run)
               @ collapse_newlines (dropWhile (\<lambda>x. x = newline) cs))
      else c # collapse_newlines cs)"
  by pat_completeness auto
termination
  by (relation "measure length") (auto simp: le_imp_less_Suc length_dropWhile_le)

definition clean_text :: "string \<Rightarrow> string" where
  "clean_text text = py_strip (collapse_newlines (collapse_whitespace text))"

text \<open>
  \<open>text.split(separator)\<close> for a non-empty separator: the text is cut at the
  non-overlapping occurrences of the separator, found from left to right. (Python raises
  \<open>ValueError\<close> for the empty separator; \<open>recursive_split\<close> below tests for it before it
  splits.)
\<close>

function py_split :: "string \<Rightarrow> string \<Rightarrow> string list" where
  "py_split sep [] = [[]]"
| "py_split sep (c # cs) =
     (if sep \<noteq> [] \<and> take (length sep) (c # cs) = sep
      then [] # py_split sep (drop (length sep) (c # cs))
      else (case py_split sep cs of
              [] \<Rightarrow> [[c]]
            | p # ps \<Rightarrow> (c # p) # ps))"
  by pat_completeness auto
termination
  by (relation "measure (\<lambda>(sep, text). length text)") (auto simp: neq_Nil_conv)

text \<open>The slice \<open>s[i:]\<close>; a negative \<open>i\<close> counts from the end.\<close>

definition slice_from :: "int \<Rightarrow> 'a list \<Rightarrow> 'a list" where
  "slice_from i xs = (if 0 \<le> i then drop (nat i) xs else drop (length xs - nat (- i)) xs)"

text \<open>\<open>s.find(" ")\<close>: the index of the first space, or \<open>-1\<close>.\<close>

definition find_space :: "string \<Rightarrow> int" where
  "find_space s =
     (if space \<in> set s then int (length (takeWhile (\<lambda>c. c \<noteq> space) s)) else - 1)"

subsection \<open>The processor\<close>

text \<open>The fields of \<open>Settings\<close> (app/core/config.py) that the modelled code reads.\<close>

record settings =
  cfg_vector_store_path :: string
  cfg_collection_name :: string
  cfg_chunk_size :: int
  cfg_chunk_overlap :: int
  cfg_retrieval_top_k :: int
  cfg_max_context_length :: int

definition default_settings :: settings where
  "default_settings =
     \<lparr>cfg_vector_store_path = ''./data/vectorstore'', cfg_collection_name = ''documents'',
      cfg_chunk_size = 500, cfg_chunk_overlap = 50,
      cfg_retrieval_top_k = 3, cfg_max_context_length = 2000\<rparr>"

record text_processor =
  chunk_size :: int
  chunk_overlap :: int
  separators :: "string list"

definition default_separators :: "string list" where
  "default_separators = [[newline, newline], [newline], ''. '', '' '', []]"

text \<open>
  The constructor: \<open>x or settings.x\<close> takes the setting when the argument is \<open>None\<close> or \<open>0\<close>.
\<close>

definition TextProcessor :: "settings \<Rightarrow> int option \<Rightarrow> int option \<Rightarrow> text_processor" where
  "TextProcessor st size_arg overlap_arg =
     \<lparr>chunk_size = (case size_arg of
                      None \<Rightarrow> cfg_chunk_size st
                    | Some n \<Rightarrow> if n \<noteq> 0 then n else cfg_chunk_size st),
      chunk_overlap = (case overlap_arg of
                         None \<Rightarrow> cfg_chunk_overlap st
                       | Some n \<Rightarrow> if n \<noteq> 0 then n else cfg_chunk_overlap st),
      separators = default_separators\<rparr>"

fun recursive_split :: "int \<Rightarrow> string \<Rightarrow> string list \<Rightarrow> string list" where
  "recursive_split csize text [] = [text]"
| "recursive_split csize text (separator # remaining_separators) =
     (if separator = [] then map (\<lambda>c. [c]) text
      else concat (map (\<lambda>split. if int (length split) \<le> csize then [split]
                                 else recursive_split csize split remaining_separators)
                       (py_split separator text)))"

text \<open>
  One round of the loop of \<open>_merge_chunks\<close>, on the state \<open>(merged, current_chunk)\<close>.
\<close>

definition merge_step :: "int \<Rightarrow> string list \<times> string \<Rightarrow> string \<Rightarrow> string list \<times> string" where
  "merge_step csize st chunk0 =
     (let merged = fst st; current_chunk = snd st; chunk = py_strip chunk0
      in if chunk = [] then (merged, current_chunk)
         else if int (length current_chunk) + int (length chunk) + 1 \<le> csize
              then (merged, py_strip (current_chunk @ '' '' @ chunk))
              else ((if current_chunk \<noteq> [] then merged @ [current_chunk] else merged), chunk))"

text \<open>The list \<open>merged\<close> as it stands before the overlap is added.\<close>

definition merged_chunks :: "int \<Rightarrow> string list \<Rightarrow> string list" where
  "merged_chunks csize chunks =
     (let st = foldl (merge_step csize) ([], []) chunks
      in if snd st \<noteq> [] then fst st @ [snd st] else fst st)"

definition overlap_text :: "int \<Rightarrow> string \<Rightarrow> string" where
  "overlap_text overlap prev_chunk =
     (let text = slice_from (- overlap) prev_chunk
      in if \<not> (text \<noteq> [] \<and> hd text = space)
         then (let space_idx = find_space text
               in if space_idx \<noteq> - 1 then slice_from (space_idx + 1) text else text)
         else text)"

definition overlapped :: "int \<Rightarrow> string \<Rightarrow> string \<Rightarrow> string" where
  "overlapped overlap prev_chunk current_chunk =
     py_strip (overlap_text overlap prev_chunk @ '' '' @ current_chunk)"

text \<open>\<open>_add_overlap\<close>; \<open>chunks[0]\<close> raises \<open>IndexError\<close> on the empty list.\<close>

definition add_overlap :: "text_processor \<Rightarrow> string list \<Rightarrow> error + string list" where
  "add_overlap tp chunks =
     (if chunks = [] then Inl IndexError
      else Inr (chunks ! 0 #
                map (\<lambda>i. overlapped (chunk_overlap tp) (chunks ! (i - 1)) (chunks ! i))
                    [1..<length chunks]))"

definition merge_chunks :: "text_processor \<Rightarrow> string list \<Rightarrow> error + string list" where
  "merge_chunks tp chunks =
     (if chunks = [] then Inr []
      else let merged = merged_chunks (chunk_size tp) chunks
           in if 0 < chunk_overlap tp \<and> 1 < length merged then add_overlap tp merged
              else Inr merged)"

definition split_text :: "text_processor \<Rightarrow> string \<Rightarrow> error + string list" where
  "split_text tp text0 =
     (let text = clean_text text0
      in if int (length text) \<le> chunk_size tp then Inr (if text \<noteq> [] then [text] else [])
         else merge_chunks tp (recursive_split (chunk_size tp) text (separators tp)))"

subsection \<open>The overlap property, in the words of the specification\<close>

text \<open>
  The chunks as they are before the overlap is added, for a text longer than the chunk
  size.
\<close>

definition pre_overlap_chunks :: "text_processor \<Rightarrow> string \<Rightarrow> string list" where
  "pre_overlap_chunks tp text0 =
     merged_chunks (chunk_size tp)
       (recursive_split (chunk_size tp) (clean_text text0) (separators tp))"

text \<open>
  \<open>word_aligned_suffix prev s\<close>: \<open>s\<close> is a non-empty suffix of \<open>prev\<close> that starts at a
  word boundary, that is, at the beginning of \<open>prev\<close> or right after a space.
\<close>

definition word_aligned_suffix :: "string \<Rightarrow> string \<Rightarrow> bool" where
  "word_aligned_suffix prev s =
     (s \<noteq> [] \<and> length s \<le> length prev \<and> drop (length prev - length s) prev = s \<and>
      (length s = length prev \<or> prev ! (length prev - length s - 1) = space))"

text \<open>
  \<open>starts_with_overlap n prev cur c\<close>: the chunk \<open>c\<close> is a word-aligned suffix of \<open>prev\<close>
  of at most \<open>n\<close> characters, one space, and \<open>cur\<close>.
\<close>

definition starts_with_overlap :: "int \<Rightarrow> string \<Rightarrow> string \<Rightarrow> string \<Rightarrow> bool" where
  "starts_with_overlap n prev cur c =
     (let s = take (length c - (length cur + 1)) c
      in c = s @ '' '' @ cur \<and> word_aligned_suffix prev s \<and> int (length s) \<le> n)"

section \<open>Context assembly (app/services/rag\_engine.py)\<close>

text \<open>\<open>str(i)\<close> for a natural number: its decimal digits.\<close>

definition digit_char :: "nat \<Rightarrow> char" where
  "digit_char d = char_of (48 + d)"

function str_of_nat :: "nat \<Rightarrow> string" where
  "str_of_nat n = (if n < 10 then [digit_char n] else str_of_nat (n div 10) @ [digit_char (n mod 10)])"
  by pat_completeness auto
termination
  by (relation "measure id") auto

text \<open>\<open>sep.join(parts)\<close>.\<close>

fun join :: "string \<Rightarrow> string list \<Rightarrow> string" where
  "join sep [] = []"
| "join sep [x] = x"
| "join sep (x # y # ys) = x @ sep @ join sep (y # ys)"

text \<open>
  The loop of \<open>_build_context\<close>: \<open>enumerate(documents, 1)\<close> counts from \<open>i\<close>, and every
  round appends \<open>f"[{i}] {doc['content']}"\<close> to \<open>context_parts\<close>.
\<close>

fun context_parts_loop :: "nat \<Rightarrow> 'v search_result list \<Rightarrow> string list \<Rightarrow> string list" where
  "context_parts_loop i [] context_parts = context_parts"
| "context_parts_loop i (doc # rest) context_parts =
     context_parts_loop (Suc i) rest
       (context_parts @ [''['' @ str_of_nat i @ ''] '' @ content doc])"

definition build_context :: "settings \<Rightarrow> 'v search_result list \<Rightarrow> string" where
  "build_context st docs =
     (if docs = [] then ''No relevant context found.''
      else let context = join [newline, newline] (context_parts_loop 1 docs [])
           in if cfg_max_context_length st < int (length context)
              then slice_to (cfg_max_context_length st) context @ ''...''
              else context)"

text \<open>
  The context in the words of the specification: the texts as an enumerated list
  \<open>[1] text\<close>, \<open>[2] text\<close>, \dots, joined by blank lines.
\<close>

definition enumerated_item :: "nat \<Rightarrow> string \<Rightarrow> string" where
  "enumerated_item i text = ''['' @ str_of_nat i @ ''] '' @ text"

definition enumerated_list :: "'v search_result list \<Rightarrow> string" where
  "enumerated_list docs =
     join [newline, newline]
       (map (\<lambda>k. enumerated_item (Suc k) (content (docs ! k))) [0..<length docs])"

section \<open>Persistence of the vector store\<close>

text \<open>
  The disk holds, under a path, a file written by \<open>persist\<close> (the archive of \<open>np.savez\<close>
  with its three members, or the JSON list of the metadata) or a file that cannot be read
  as either. \<open>writable\<close> says whether a write to a path succeeds. Directories (and
  \<open>os.makedirs\<close>) are not modelled.
\<close>

datatype 'v stored_file = NpzFile ndarray "string list" "string list" | JsonFile "'v dict list" | Unreadable

record 'v disk =
  files :: "string \<Rightarrow> 'v stored_file option"
  writable :: "string \<Rightarrow> bool"

text \<open>\<open>os.path.join(a, b)\<close> for two components.\<close>

definition path_join :: "string \<Rightarrow> string \<Rightarrow> string" where
  "path_join a b =
     (if b \<noteq> [] \<and> hd b = CHR ''/'' then b
      else if a = [] \<or> last a = CHR ''/'' then a @ b
      else a @ ''/'' @ b)"

definition get_storage_path :: "'v vector_store \<Rightarrow> string" where
  "get_storage_path s = path_join (persist_directory s) (collection_name s @ ''.npz'')"

definition get_metadata_path :: "'v vector_store \<Rightarrow> string" where
  "get_metadata_path s = path_join (persist_directory s) (collection_name s @ ''_meta.json'')"

definition clear :: "'v vector_store \<Rightarrow> 'v vector_store" where
  "clear s = s\<lparr>documents := [], embeddings := None, metadatas := [], ids := []\<rparr>"

text \<open>
  \<open>_load\<close>: when both files exist they are read; any exception while reading (here: a
  file that is not what \<open>persist\<close> writes) empties the store again.
\<close>

definition load :: "'v vector_store \<Rightarrow> 'v disk \<Rightarrow> 'v vector_store" where
  "load s d =
     (case (files d (get_storage_path s), files d (get_metadata_path s)) of
        (Some data, Some meta) \<Rightarrow>
          (case (data, meta) of
             (NpzFile e docs idl, JsonFile ms) \<Rightarrow>
               s\<lparr>embeddings := Some e, documents := docs, ids := idl, metadatas := ms\<rparr>
           | _ \<Rightarrow> clear s)
      | _ \<Rightarrow> s)"

text \<open>The constructor: \<open>x or settings.x\<close> takes the setting for \<open>None\<close> and for the empty string.\<close>

definition VectorStore ::
  "settings \<Rightarrow> string option \<Rightarrow> string option \<Rightarrow> 'v disk \<Rightarrow> 'v vector_store" where
  "VectorStore st name_arg dir_arg d =
     load \<lparr>collection_name = (case name_arg of
                                None \<Rightarrow> cfg_collection_name st
                              | Some n \<Rightarrow> if n \<noteq> [] then n else cfg_collection_name st),
           persist_directory = (case dir_arg of
                                  None \<Rightarrow> cfg_vector_store_path st
                                | Some p \<Rightarrow> if p \<noteq> [] then p else cfg_vector_store_path st),
           documents = [], embeddings = None, metadatas = [], ids = []\<rparr> d"

text \<open>
  \<open>persist\<close> returns the exception raised, if any, and the disk as it is left. Nothing
  is written for a store without documents. \<open>np.savez\<close> runs first and \<open>json.dump\<close>
  second; a failed write is re-raised as \<open>VectorStoreError\<close>, the archive staying written
  when only the second write fails. \<open>np.savez\<close> turns \<open>embeddings=None\<close> into the object
  array.
\<close>

definition persist :: "'v vector_store \<Rightarrow> 'v disk \<Rightarrow> error option \<times> 'v disk" where
  "persist s d =
     (if documents s = [] then (None, d)
      else if \<not> writable d (get_storage_path s) then (Some VectorStoreError, d)
      else let d1 = d\<lparr>files := (files d)
                         (get_storage_path s \<mapsto>
                            NpzFile (case embeddings s of None \<Rightarrow> ObjArr | Some e \<Rightarrow> e)
                                    (documents s) (ids s))\<rparr>
           in if \<not> writable d (get_metadata_path s) then (Some VectorStoreError, d1)
              else (None, d1\<lparr>files := (files d1)(get_metadata_path s \<mapsto> JsonFile (metadatas s))\<rparr>))"

record stats =
  name :: string
  document_count :: nat
  stats_persist_directory :: string

definition get_stats :: "'v vector_store \<Rightarrow> stats" where
  "get_stats s =
     \<lparr>name = collection_name s, document_count = length (documents s),
      stats_persist_directory = persist_directory s\<rparr>"

subsection \<open>Predicates on chunks used in the proofs\<close>

text \<open>
  \<open>fits c s\<close>: the string has at most \<open>c\<close> characters. \<open>trimmed s\<close>: the string is not
  empty and neither starts nor ends with whitespace. \<open>plain s\<close>: the only whitespace in
  the string is the space.
\<close>

definition fits :: "int \<Rightarrow> string \<Rightarrow> bool" where
  "fits c s = (int (length s) \<le> c)"

definition trimmed :: "string \<Rightarrow> bool" where
  "trimmed s = (s \<noteq> [] \<and> \<not> isspace (hd s) \<and> \<not> isspace (last s))"

definition plain :: "string \<Rightarrow> bool" where
  "plain s = (\<forall>c \<in> set s. isspace c \<longrightarrow> c = space)"

definition chunk_ok :: "string \<Rightarrow> bool" where
  "chunk_ok s = (trimmed s \<and> plain s)"

subsection \<open>Example inputs\<close>

text \<open>
  NumPy on the small examples below: their arrays have two elements, so \<open>np.argsort\<close>
  is the insertion sort, and every number that arises in them (0 and 1) is a double, so
  rounding returns it unchanged. Further, two ranked chunks, and a disk without files on
  which every write succeeds.
\<close>

definition numpy_on_examples :: numpy where
  "numpy_on_examples = \<lparr>rounding = Fin, argsort = argsort_insertion\<rparr>"

definition two_results :: "unit search_result list" where
  "two_results =
     [\<lparr>result_id = ''id0'', content = ''alpha'', metadata = [], score = Fin 1\<rparr>,
      \<lparr>result_id = ''id1'', content = ''beta'', metadata = [], score = Fin 0\<rparr>]"

definition empty_disk :: "unit disk" where
  "empty_disk = \<lparr>files = (\<lambda>p. None), writable = (\<lambda>p. True)\<rparr>"

section \<open>Properties of the vector store\<close>

text \<open>
  C10. \<open>add_documents\<close> with an empty list of documents returns the empty list of
  identifiers and leaves the whole store (documents, embeddings, metadata, identifiers)
  as it was, whatever the other arguments are.
\<close>

theorem add_documents_empty_noop:
  "add_documents uuid4 s [] embs metas_opt ids_opt = Inr ([], s)"
  by (simp add: add_documents_def)

text \<open>
  C1 (as stated: a dimension mismatch fails with \<open>VectorStoreError\<close>). A store holding
  one vector of dimension 2 is given one vector of dimension 3: the call fails, but with
  NumPy's \<open>ValueError\<close> out of \<open>np.vstack\<close>, which \<open>add_documents\<close> does not catch.
\<close>

theorem add_documents_mismatch_counterexample:
  "add_documents (\<lambda>k. ''u'')
     \<lparr>collection_name = ''documents'', persist_directory = ''data'',
      documents = [''a''], embeddings = Some (Arr2 2 [[1, 0]]),
      metadatas = [[]], ids = [''id0'']\<rparr>
     [''b''] [[1, 0, 0]] (None :: unit dict list option) None = Inl ValueError
   \<and> Inl ValueError \<noteq> (Inl VectorStoreError :: error + (string list \<times> unit vector_store))"
  by (simp add: add_documents_def vstack_def)

text \<open>
  C1 (amended). Let the store hold vectors of dimension \<open>d\<close> and let the new vectors all
  have dimension \<open>d'\<close>. If \<open>d' \<noteq> d\<close> the call fails with \<open>ValueError\<close>; if \<open>d' = d\<close>
  it succeeds, returns the identifiers and appends the new rows, texts, metadata and
  identifiers. In neither case is the outcome a \<open>VectorStoreError\<close>.
\<close>

theorem add_documents_dimension:
  assumes "docs \<noteq> []" and "embs \<noteq> []" and "\<forall>r \<in> set embs. length r = d'"
    and "embeddings s = Some (Arr2 d rows)"
  shows "add_documents uuid4 s docs embs metas_opt ids_opt =
           (if d' = d
            then Inr (case ids_opt of None \<Rightarrow> map uuid4 [0..<length docs] | Some i \<Rightarrow> i,
                      s\<lparr>embeddings := Some (Arr2 d (rows @ embs)),
                        documents := documents s @ docs,
                        metadatas := metadatas s @
                          (case metas_opt of None \<Rightarrow> map (\<lambda>_. []) docs | Some m \<Rightarrow> m),
                        ids := ids s @
                          (case ids_opt of None \<Rightarrow> map uuid4 [0..<length docs] | Some i \<Rightarrow> i)\<rparr>)
            else Inl ValueError)
       \<and> add_documents uuid4 s docs embs metas_opt ids_opt \<noteq> Inl VectorStoreError"
proof -
  obtain r rs where embs: "embs = r # rs"
    using assms(2) by (cases embs) auto
  have "np_array embs = Inr (Arr2 d' embs)"
    using assms(3) by (simp add: embs)
  then show ?thesis
    using assms(1,4) by (simp add: add_documents_def vstack_def Let_def)
qed

theorem add_documents_dimension_witness:
  "add_documents (\<lambda>k. ''u'')
     \<lparr>collection_name = ''documents'', persist_directory = ''data'',
      documents = [''a''], embeddings = Some (Arr2 2 [[1, 0]]),
      metadatas = [[]], ids = [''id0'']\<rparr>
     [''b''] [[0, 1]] (Some [[(''k'', ())]]) None =
   Inr ([''u''],
     \<lparr>collection_name = ''documents'', persist_directory = ''data'',
      documents = [''a'', ''b''], embeddings = Some (Arr2 2 [[1, 0], [0, 1]]),
      metadatas = [[], [(''k'', ())]], ids = [''id0'', ''u'']\<rparr>)"
  using add_documents_dimension
    [of "[''b'']" "[[0, 1]]" 2
        "\<lparr>collection_name = ''documents'', persist_directory = ''data'',
          documents = [''a''], embeddings = Some (Arr2 2 [[1, 0]]),
          metadatas = [[]], ids = [''id0'']\<rparr>"
        2 "[[1, 0]]" "\<lambda>k. ''u''" "Some [[(''k'', ())]]" None]
  by simp

subsection \<open>Auxiliary facts about the search\<close>

lemmas search_eval =
  search_def similarities_def normalized_def linalg_norm_def dot_def argsort_insertion_def
  top_indices_def slice_to_def upt_rec wf_store_def numpy_on_examples_def valid_argsort_def

lemma collect_results_in_range:
  "\<forall>i \<in> set idxs. i < length (ids s) \<and> i < length (documents s) \<and> i < length (metadatas s)
   \<Longrightarrow> collect_results s sims idxs =
       Inr (map (\<lambda>i. \<lparr>result_id = ids s ! i, content = documents s ! i,
                       metadata = metadatas s ! i, score = sims ! i\<rparr>) idxs)"
  by (induction idxs) auto

lemma set_argsort: "valid_argsort np xs \<Longrightarrow> set (argsort np xs) = {0..<length xs}"
  unfolding valid_argsort_def using mset_eq_setD by fastforce

lemma distinct_argsort: "valid_argsort np xs \<Longrightarrow> distinct (argsort np xs)"
  unfolding valid_argsort_def using mset_eq_imp_distinct_iff[of "argsort np xs" "[0..<length xs]"]
  by simp

lemma length_argsort: "valid_argsort np xs \<Longrightarrow> length (argsort np xs) = length xs"
  unfolding valid_argsort_def using mset_eq_length[of "argsort np xs" "[0..<length xs]"] by simp

lemma sorted_argsort:
  "valid_argsort np xs \<Longrightarrow> sorted (map (\<lambda>i. sort_position (xs ! i)) (argsort np xs))"
  by (simp add: valid_argsort_def)

lemma valid_argsort_insertion:
  "valid_argsort \<lparr>rounding = r, argsort = argsort_insertion\<rparr> xs"
  by (simp add: valid_argsort_def argsort_insertion_def)

lemma top_indices_nth:
  assumes "valid_argsort np sims" "0 \<le> k" "a < length (top_indices np sims k)"
  shows "top_indices np sims k ! a = argsort np sims ! (length sims - Suc a)" "a < length sims"
  using assms(2,3) length_argsort[OF assms(1)]
  by (simp_all add: top_indices_def slice_to_def rev_nth)

lemma length_top_indices:
  "valid_argsort np sims \<Longrightarrow> 0 \<le> k \<Longrightarrow>
   length (top_indices np sims k) = min (nat k) (length sims)"
  by (simp add: top_indices_def slice_to_def length_argsort)

lemma set_top_indices:
  assumes "valid_argsort np sims"
  shows "set (top_indices np sims k) \<subseteq> {0..<length sims}"
proof -
  have "set (top_indices np sims k) \<subseteq> set (rev (argsort np sims))"
    unfolding top_indices_def slice_to_def by (auto dest: in_set_takeD)
  then show ?thesis using set_argsort[OF assms] by simp
qed

lemma distinct_top_indices: "valid_argsort np sims \<Longrightarrow> distinct (top_indices np sims k)"
  by (simp add: top_indices_def slice_to_def distinct_argsort)

lemma argsort_nth_mono:
  assumes "valid_argsort np sims" "a \<le> b" "b < length sims"
  shows "fl_le (sims ! (argsort np sims ! a)) (sims ! (argsort np sims ! b))"
proof -
  have "map (\<lambda>i. sort_position (sims ! i)) (argsort np sims) ! a
        \<le> map (\<lambda>i. sort_position (sims ! i)) (argsort np sims) ! b"
    using sorted_argsort[OF assms(1)] assms(2,3) length_argsort[OF assms(1)]
    by (simp add: sorted_iff_nth_mono)
  then show ?thesis using assms(2,3) length_argsort[OF assms(1)] by (simp add: fl_le_def)
qed

lemma top_indices_descending:
  assumes "valid_argsort np sims" "0 \<le> k" "a < b" "b < length (top_indices np sims k)"
  shows "fl_le (sims ! (top_indices np sims k ! b)) (sims ! (top_indices np sims k ! a))"
proof -
  have b: "b < length sims" and a: "a < length (top_indices np sims k)"
    using top_indices_nth(2)[OF assms(1,2,4)] assms(3,4) by simp_all
  have "fl_le (sims ! (argsort np sims ! (length sims - Suc b)))
              (sims ! (argsort np sims ! (length sims - Suc a)))"
    using assms(3) b by (intro argsort_nth_mono[OF assms(1)]) simp_all
  then show ?thesis
    by (simp only: top_indices_nth(1)[OF assms(1,2,4)] top_indices_nth(1)[OF assms(1,2) a])
qed

lemma top_indices_best:
  assumes "valid_argsort np sims" "0 \<le> k" "j < length sims"
    "j \<notin> set (top_indices np sims k)" "i \<in> set (top_indices np sims k)"
  shows "fl_le (sims ! j) (sims ! i)"
proof -
  let ?R = "rev (argsort np sims)"
  note len = length_argsort[OF assms(1)]
  have T: "top_indices np sims k = take (nat k) ?R"
    using assms(2) by (simp add: top_indices_def slice_to_def)
  have "j \<in> set ?R" using assms(3) set_argsort[OF assms(1)] by simp
  then have "\<exists>c<length ?R. ?R ! c = j" unfolding in_set_conv_nth by blast
  then obtain c where c: "c < length ?R" "?R ! c = j" by blast
  have nk: "\<not> c < nat k"
  proof
    assume ck: "c < nat k"
    then have "take (nat k) ?R ! c = j" using c by simp
    moreover have "c < length (take (nat k) ?R)" using c ck by simp
    ultimately have "j \<in> set (take (nat k) ?R)" by (metis nth_mem)
    then show False using assms(4) T by simp
  qed
  have "\<exists>a<length (top_indices np sims k). top_indices np sims k ! a = i"
    using assms(5) unfolding in_set_conv_nth by blast
  then obtain a where a: "a < length (top_indices np sims k)" "top_indices np sims k ! a = i"
    by blast
  then have ak: "a < nat k" "a < length sims" using len by (simp_all add: T)
  have ia: "i = argsort np sims ! (length sims - Suc a)"
    using top_indices_nth(1)[OF assms(1,2) a(1)] a(2) by simp
  have jc: "j = argsort np sims ! (length sims - Suc c)"
    using c len by (simp add: rev_nth)
  have "fl_le (sims ! (argsort np sims ! (length sims - Suc c)))
              (sims ! (argsort np sims ! (length sims - Suc a)))"
    using ak nk c len by (intro argsort_nth_mono[OF assms(1)]) simp_all
  then show ?thesis by (simp only: ia jc)
qed

lemma length_similarities: "length (similarities np rows q) = length rows"
  by (simp add: similarities_def)

lemma search_wf:
  assumes "wf_store s" "documents s \<noteq> []" "embeddings s = Some (Arr2 d rows)" "length q = d"
    and "valid_argsort np (similarities np rows q)"
  shows "search np s q k =
         Inr (map (\<lambda>i. \<lparr>result_id = ids s ! i, content = documents s ! i,
                         metadata = metadatas s ! i, score = similarities np rows q ! i\<rparr>)
                  (top_indices np (similarities np rows q) k))"
proof -
  have len: "length rows = length (documents s)" "length (ids s) = length (documents s)"
    "length (metadatas s) = length (documents s)"
    using assms(1,3) by (simp_all add: wf_store_def)
  have "\<forall>i \<in> set (top_indices np (similarities np rows q) k).
          i < length (ids s) \<and> i < length (documents s) \<and> i < length (metadatas s)"
    using set_top_indices[OF assms(5), of k] len
    by (auto simp: length_similarities)
  then have "collect_results s (similarities np rows q) (top_indices np (similarities np rows q) k) =
             Inr (map (\<lambda>i. \<lparr>result_id = ids s ! i, content = documents s ! i,
                         metadata = metadatas s ! i, score = similarities np rows q ! i\<rparr>)
                  (top_indices np (similarities np rows q) k))"
    by (rule collect_results_in_range)
  then show ?thesis using assms(2,3,4) by (simp add: search_def Let_def)
qed

lemma mset_map_nth_perm:
  assumes "mset idxs = mset [0..<length xs]"
  shows "mset (map (\<lambda>i. xs ! i) idxs) = mset xs"
proof -
  have "mset (map (\<lambda>i. xs ! i) idxs) = image_mset (\<lambda>i. xs ! i) (mset idxs)" by simp
  also have "\<dots> = image_mset (\<lambda>i. xs ! i) (mset [0..<length xs])" by (simp only: assms)
  also have "\<dots> = mset (map (\<lambda>i. xs ! i) [0..<length xs])" by simp
  also have "\<dots> = mset xs" by (simp only: map_nth)
  finally show ?thesis .
qed

lemma fl_mul_NaN_right: "fl_mul r a NaN = NaN"
  by (cases a) simp_all

lemma fl_add_NaN_right: "fl_add r a NaN = NaN"
  by (cases a) simp_all

lemma fl_div_NaN_right: "fl_div r a NaN = NaN"
  by (cases a) simp_all

lemma foldl_fl_add_NaN: "foldl (fl_add r) NaN xs = NaN"
  by (induction xs) simp_all

lemma foldl_fl_add_all_NaN:
  "xs \<noteq> [] \<Longrightarrow> \<forall>x \<in> set xs. x = NaN \<Longrightarrow> foldl (fl_add r) a xs = NaN"
  by (cases xs) (simp_all add: fl_add_NaN_right foldl_fl_add_NaN)

lemma dot_NaN_left:
  assumes "a \<noteq> []" "length a = length b" "\<forall>x \<in> set a. x = NaN"
  shows "dot np a b = NaN"
proof -
  have "map2 (fl_mul (rounding np)) a b \<noteq> []" using assms(1,2) by (cases a; cases b) auto
  moreover have "\<forall>x \<in> set (map2 (fl_mul (rounding np)) a b). x = NaN"
  proof
    fix x assume "x \<in> set (map2 (fl_mul (rounding np)) a b)"
    then obtain u w where uw: "(u, w) \<in> set (zip a b)" "x = fl_mul (rounding np) u w" by auto
    then have "u = NaN" using assms(3) set_zip_leftD[OF uw(1)] by blast
    then show "x = NaN" using uw(2) by simp
  qed
  ultimately show ?thesis unfolding dot_def by (rule foldl_fl_add_all_NaN)
qed

lemma dot_NaN_right:
  assumes "a \<noteq> []" "length a = length b" "\<forall>x \<in> set b. x = NaN"
  shows "dot np a b = NaN"
proof -
  have "map2 (fl_mul (rounding np)) a b \<noteq> []" using assms(1,2) by (cases a; cases b) auto
  moreover have "\<forall>x \<in> set (map2 (fl_mul (rounding np)) a b). x = NaN"
  proof
    fix x assume "x \<in> set (map2 (fl_mul (rounding np)) a b)"
    then obtain u w where uw: "(u, w) \<in> set (zip a b)" "x = fl_mul (rounding np) u w" by auto
    then have "w = NaN" using assms(3) set_zip_rightD[OF uw(1)] by blast
    then show "x = NaN" using uw(2) by (simp add: fl_mul_NaN_right)
  qed
  ultimately show ?thesis unfolding dot_def by (rule foldl_fl_add_all_NaN)
qed

lemma foldl_fl_add_zeros:
  "r 0 = Fin 0 \<Longrightarrow> \<forall>x \<in> set xs. x = Fin 0 \<Longrightarrow> foldl (fl_add r) (Fin 0) xs = Fin 0"
  by (induction xs) simp_all

lemma linalg_norm_zero:
  assumes "rounding np 0 = Fin 0" "\<forall>x \<in> set v. x = 0"
  shows "linalg_norm np v = Fin 0"
proof -
  have "\<forall>x \<in> set (map (\<lambda>x. fl_mul (rounding np) (Fin x) (Fin x)) v). x = Fin 0"
    using assms by auto
  then have "foldl (fl_add (rounding np)) (Fin 0)
               (map (\<lambda>x. fl_mul (rounding np) (Fin x) (Fin x)) v) = Fin 0"
    using assms(1) by (intro foldl_fl_add_zeros)
  then show ?thesis using assms(1) by (simp add: linalg_norm_def)
qed

lemma normalized_zero:
  assumes "rounding np 0 = Fin 0" "\<forall>x \<in> set v. x = 0"
  shows "\<forall>x \<in> set (normalized np v). x = NaN"
  using linalg_norm_zero[OF assms] assms(2) by (auto simp: normalized_def)

lemma length_normalized: "length (normalized np v) = length v"
  by (simp add: normalized_def Let_def)

lemma similarity_zero:
  assumes "rounding np 0 = Fin 0" "length r = length q" "r \<noteq> []"
    and "(\<forall>x \<in> set q. x = 0) \<or> (\<forall>x \<in> set r. x = 0)"
  shows "dot np (normalized np r) (normalized np q) = NaN"
proof -
  have ne: "normalized np r \<noteq> []" using assms(3) length_normalized[of np r] by auto
  have len: "length (normalized np r) = length (normalized np q)"
    using assms(2) by (simp add: length_normalized)
  from assms(4) show ?thesis
  proof
    assume "\<forall>x \<in> set q. x = 0"
    then show ?thesis using normalized_zero[OF assms(1)] dot_NaN_right[OF ne len] by blast
  next
    assume "\<forall>x \<in> set r. x = 0"
    then show ?thesis using normalized_zero[OF assms(1)] dot_NaN_left[OF ne len] by blast
  qed
qed

subsection \<open>Claims about the search\<close>

text \<open>
  C7. A search in a collection without records returns the empty list, for every query and
  every \<open>top_k\<close>. In a well-formed collection of \<open>n > 0\<close> records, a search with a query
  of the collection's dimension and \<open>top_k\<close> larger than \<open>n\<close> returns all \<open>n\<close> records:
  the results are the identifier, text and metadata stored at each position of the store,
  every position taken once, so that the returned texts, identifiers and metadata are
  those of the store.
\<close>

theorem search_empty_or_all:
  "(documents s = [] \<longrightarrow> search np s q k = Inr []) \<and>
   (wf_store s \<and> documents s \<noteq> [] \<and> embeddings s = Some (Arr2 d rows) \<and> length q = d \<and>
    valid_argsort np (similarities np rows q) \<and> int (length (documents s)) < k \<longrightarrow>
      (\<exists>idxs rs. search np s q k = Inr rs
         \<and> rs = map (\<lambda>i. \<lparr>result_id = ids s ! i, content = documents s ! i,
                            metadata = metadatas s ! i,
                            score = similarities np rows q ! i\<rparr>) idxs
         \<and> mset idxs = mset [0..<length (documents s)]
         \<and> length rs = length (documents s)
         \<and> mset (map content rs) = mset (documents s)
         \<and> mset (map result_id rs) = mset (ids s)
         \<and> mset (map metadata rs) = mset (metadatas s)))"
proof (intro conjI impI)
  assume "documents s = []"
  then show "search np s q k = Inr []"
    by (simp add: search_def split: option.splits)
next
  assume h: "wf_store s \<and> documents s \<noteq> [] \<and> embeddings s = Some (Arr2 d rows) \<and> length q = d \<and>
    valid_argsort np (similarities np rows q) \<and> int (length (documents s)) < k"
  let ?sims = "similarities np rows q"
  let ?idxs = "rev (argsort np ?sims)"
  let ?mk = "\<lambda>i. \<lparr>result_id = ids s ! i, content = documents s ! i,
                  metadata = metadatas s ! i, score = ?sims ! i\<rparr>"
  from h have wf: "wf_store s" and emb: "embeddings s = Some (Arr2 d rows)"
    and ne: "documents s \<noteq> []" and q: "length q = d" and va: "valid_argsort np ?sims"
    and k: "int (length (documents s)) < k"
    by blast+
  from k have k': "length (documents s) \<le> nat k" "0 \<le> k" by linarith+
  have len: "length rows = length (documents s)" "length (ids s) = length (documents s)"
    "length (metadatas s) = length (documents s)"
    using wf emb by (simp_all add: wf_store_def)
  have ls: "length ?sims = length (documents s)" using len by (simp add: length_similarities)
  have "top_indices np ?sims k = ?idxs"
    using k' ls length_argsort[OF va] by (simp add: top_indices_def slice_to_def)
  then have s: "search np s q k = Inr (map ?mk ?idxs)"
    using search_wf[OF wf ne emb q va, of k] by simp
  have perm: "mset ?idxs = mset [0..<length (documents s)]"
    using va ls by (simp add: valid_argsort_def)
  have c: "mset (map content (map ?mk ?idxs)) = mset (documents s)"
    using mset_map_nth_perm[of ?idxs "documents s"] perm by (simp add: comp_def)
  have i: "mset (map result_id (map ?mk ?idxs)) = mset (ids s)"
    using mset_map_nth_perm[of ?idxs "ids s"] perm len by (simp add: comp_def)
  have m: "mset (map metadata (map ?mk ?idxs)) = mset (metadatas s)"
    using mset_map_nth_perm[of ?idxs "metadatas s"] perm len by (simp add: comp_def)
  have l: "length (map ?mk ?idxs) = length (documents s)"
    using length_argsort[OF va] ls by simp
  show "\<exists>idxs rs. search np s q k = Inr rs
         \<and> rs = map ?mk idxs
         \<and> mset idxs = mset [0..<length (documents s)]
         \<and> length rs = length (documents s)
         \<and> mset (map content rs) = mset (documents s)
         \<and> mset (map result_id rs) = mset (ids s)
         \<and> mset (map metadata rs) = mset (metadatas s)"
    using s perm l c i m by blast
qed

theorem search_empty_or_all_witness:
  "search numpy_on_examples \<lparr>collection_name = ''documents'', persist_directory = ''data'',
        documents = [], embeddings = None,
        metadatas = [] :: unit dict list, ids = []\<rparr> [1, 0] 3 = Inr []
   \<and> search numpy_on_examples \<lparr>collection_name = ''documents'', persist_directory = ''data'',
        documents = [''a'', ''b''], embeddings = Some (Arr2 2 [[1, 0], [0, 1]]),
        metadatas = [[], []] :: unit dict list, ids = [''id0'', ''id1'']\<rparr> [1, 0] 5 =
       Inr [\<lparr>result_id = ''id0'', content = ''a'', metadata = [], score = Fin 1\<rparr>,
            \<lparr>result_id = ''id1'', content = ''b'', metadata = [], score = Fin 0\<rparr>]"
proof -
  have e: "search numpy_on_examples \<lparr>collection_name = ''documents'', persist_directory = ''data'',
        documents = [''a'', ''b''], embeddings = Some (Arr2 2 [[1, 0], [0, 1]]),
        metadatas = [[], []] :: unit dict list, ids = [''id0'', ''id1'']\<rparr> [1, 0] 5 =
       Inr [\<lparr>result_id = ''id0'', content = ''a'', metadata = [], score = Fin 1\<rparr>,
            \<lparr>result_id = ''id1'', content = ''b'', metadata = [], score = Fin 0\<rparr>]"
    by (simp add: search_eval)
  show ?thesis
    using search_empty_or_all
      [of "\<lparr>collection_name = ''documents'', persist_directory = ''data'',
        documents = [], embeddings = None,
        metadatas = [] :: unit dict list, ids = []\<rparr>" numpy_on_examples "[1, 0]" 3 2 "[]"]
      search_empty_or_all
      [of "\<lparr>collection_name = ''documents'', persist_directory = ''data'',
        documents = [''a'', ''b''], embeddings = Some (Arr2 2 [[1, 0], [0, 1]]),
        metadatas = [[], []] :: unit dict list, ids = [''id0'', ''id1'']\<rparr>" numpy_on_examples "[1, 0]" 5 2 "[[1, 0], [0, 1]]"] e
    by simp
qed

text \<open>
  C3 (as stated: records with equal scores come out in insertion order). The texts \<open>a\<close>
  and \<open>b\<close> are stored in this order with the same vector; both score 1 against the query,
  and the search returns \<open>b\<close> before \<open>a\<close>: the ascending order of \<open>np.argsort\<close> is reversed,
  which reverses the order of equal scores as well.
\<close>

theorem search_ties_counterexample:
  "search numpy_on_examples \<lparr>collection_name = ''documents'', persist_directory = ''data'',
        documents = [''a'', ''b''], embeddings = Some (Arr2 2 [[1, 0], [1, 0]]),
        metadatas = [[], []] :: unit dict list, ids = [''id0'', ''id1'']\<rparr> [1, 0] 2 =
   Inr [\<lparr>result_id = ''id1'', content = ''b'', metadata = [], score = Fin 1\<rparr>,
        \<lparr>result_id = ''id0'', content = ''a'', metadata = [], score = Fin 1\<rparr>]"
  by (simp add: search_eval)

text \<open>
  C3 (amended). In a well-formed, non-empty collection of \<open>n\<close> records, a search with a
  query of the collection's dimension and \<open>top_k \<ge> 0\<close> returns the records stored at the
  first \<open>top_k\<close> positions of the reversed result of \<open>np.argsort\<close>: these are
  \<open>min top_k n\<close> distinct positions of the store; the computed scores descend (in the
  order \<open>np.argsort\<close> sorts by); and every record left out scores no higher than every
  record returned. Nothing is said about the order of records with equal scores beyond
  its being the reverse of the order \<open>np.argsort\<close> leaves them in.
\<close>

theorem search_ranking:
  assumes "wf_store s" "documents s \<noteq> []" "embeddings s = Some (Arr2 d rows)" "length q = d"
    and "valid_argsort np (similarities np rows q)" and "0 \<le> k"
  shows "\<exists>idxs. search np s q k =
                 Inr (map (\<lambda>i. \<lparr>result_id = ids s ! i, content = documents s ! i,
                                 metadata = metadatas s ! i,
                                 score = similarities np rows q ! i\<rparr>) idxs)
      \<and> idxs = take (nat k) (rev (argsort np (similarities np rows q)))
      \<and> length idxs = min (nat k) (length (documents s))
      \<and> distinct idxs \<and> set idxs \<subseteq> {0..<length (documents s)}
      \<and> (\<forall>a b. a < b \<and> b < length idxs \<longrightarrow>
             fl_le (similarities np rows q ! (idxs ! b)) (similarities np rows q ! (idxs ! a)))
      \<and> (\<forall>j i. j < length (documents s) \<and> j \<notin> set idxs \<and> i \<in> set idxs \<longrightarrow>
             fl_le (similarities np rows q ! j) (similarities np rows q ! i))"
proof -
  let ?sims = "similarities np rows q"
  let ?T = "top_indices np ?sims k"
  note va = assms(5)
  have len: "length ?sims = length (documents s)"
    using assms(1,3) by (simp add: wf_store_def length_similarities)
  have 1: "search np s q k =
           Inr (map (\<lambda>i. \<lparr>result_id = ids s ! i, content = documents s ! i,
                           metadata = metadatas s ! i, score = ?sims ! i\<rparr>) ?T)"
    using assms(1-5) by (rule search_wf)
  have 0: "?T = take (nat k) (rev (argsort np ?sims))"
    using assms(6) by (simp add: top_indices_def slice_to_def)
  have 2: "length ?T = min (nat k) (length (documents s))"
    using length_top_indices[OF va assms(6)] len by simp
  have 3: "distinct ?T" using va by (rule distinct_top_indices)
  have 4: "set ?T \<subseteq> {0..<length (documents s)}"
    using set_top_indices[OF va, of k] len by simp
  have 5: "\<forall>a b. a < b \<and> b < length ?T \<longrightarrow> fl_le (?sims ! (?T ! b)) (?sims ! (?T ! a))"
    using top_indices_descending[OF va assms(6)] by blast
  have 6: "\<forall>j i. j < length (documents s) \<and> j \<notin> set ?T \<and> i \<in> set ?T \<longrightarrow>
             fl_le (?sims ! j) (?sims ! i)"
    using top_indices_best[OF va assms(6)] len by metis
  show ?thesis
    using 1 0 2 3 4 5 6 by blast
qed

theorem search_ranking_witness:
  "search numpy_on_examples \<lparr>collection_name = ''documents'', persist_directory = ''data'',
        documents = [''a'', ''b''], embeddings = Some (Arr2 2 [[1, 0], [0, 1]]),
        metadatas = [[], []] :: unit dict list, ids = [''id0'', ''id1'']\<rparr> [1, 0] 1 =
     Inr [\<lparr>result_id = ''id0'', content = ''a'', metadata = [], score = Fin 1\<rparr>]"
proof -
  have e: "take (nat 1) (rev (argsort numpy_on_examples
             (similarities numpy_on_examples [[1, 0], [0, 1]] [1, 0]))) = [0]"
    and v: "similarities numpy_on_examples [[1, 0], [0, 1]] [1, 0] ! 0 = Fin 1"
    by (simp_all add: search_eval)
  show ?thesis
    using search_ranking
      [of "\<lparr>collection_name = ''documents'', persist_directory = ''data'',
        documents = [''a'', ''b''], embeddings = Some (Arr2 2 [[1, 0], [0, 1]]),
        metadatas = [[], []] :: unit dict list, ids = [''id0'', ''id1'']\<rparr>" 2 "[[1, 0], [0, 1]]" "[1, 0]" numpy_on_examples 1]
      valid_argsort_insertion[of Fin] e v
    by (auto simp: wf_store_def numpy_on_examples_def)
qed

text \<open>
  C2 (as stated: the score against a zero vector is a defined number such as 0). The
  query is the zero vector; the division by its norm is \<open>0.0 / 0.0\<close> and the score of the
  stored record is NaN.
\<close>

theorem search_zero_query_counterexample:
  "search numpy_on_examples \<lparr>collection_name = ''documents'', persist_directory = ''data'',
        documents = [''a''], embeddings = Some (Arr2 2 [[1, 0]]),
        metadatas = [[]] :: unit dict list, ids = [''id0'']\<rparr> [0, 0] 1 =
   Inr [\<lparr>result_id = ''id0'', content = ''a'', metadata = [], score = NaN\<rparr>]"
  by (simp add: search_eval)

text \<open>
  C2 (amended). The search has no zero check. In a well-formed, non-empty collection and
  for a query of the collection's dimension \<open>d > 0\<close> it raises nothing and returns stored
  records, each with the similarity computed for it; and whenever the query is the zero
  vector or the stored vector is the zero vector, that similarity is NaN, not a number:
  the norm is \<open>0.0\<close> and every component is \<open>0.0 / 0.0\<close>. (Of the arithmetic, only that it
  returns the exact result \<open>0.0\<close> unchanged is used.)
\<close>

theorem search_scores:
  assumes "wf_store s" "documents s \<noteq> []" "embeddings s = Some (Arr2 d rows)" "length q = d"
    and "0 < d" and "valid_argsort np (similarities np rows q)" and "rounding np 0 = Fin 0"
  shows "(\<exists>idxs. search np s q k =
                  Inr (map (\<lambda>i. \<lparr>result_id = ids s ! i, content = documents s ! i,
                                  metadata = metadatas s ! i,
                                  score = similarities np rows q ! i\<rparr>) idxs)
            \<and> set idxs \<subseteq> {0..<length rows})
       \<and> (\<forall>i<length rows.
            (\<forall>x \<in> set q. x = 0) \<or> (\<forall>x \<in> set (rows ! i). x = 0) \<longrightarrow>
            similarities np rows q ! i = NaN)"
proof (intro conjI allI impI)
  have "set (top_indices np (similarities np rows q) k) \<subseteq> {0..<length rows}"
    using set_top_indices[OF assms(6), of k] by (simp add: length_similarities)
  then show "\<exists>idxs. search np s q k =
                  Inr (map (\<lambda>i. \<lparr>result_id = ids s ! i, content = documents s ! i,
                                  metadata = metadatas s ! i,
                                  score = similarities np rows q ! i\<rparr>) idxs)
            \<and> set idxs \<subseteq> {0..<length rows}"
    using search_wf[OF assms(1-4) assms(6), of k] by blast
next
  fix i assume i: "i < length rows"
    and z: "(\<forall>x \<in> set q. x = 0) \<or> (\<forall>x \<in> set (rows ! i). x = 0)"
  have "length (rows ! i) = d"
    using i assms(1,3) by (simp add: wf_store_def)
  then have len: "length (rows ! i) = length q" and ne: "rows ! i \<noteq> []"
    using assms(4,5) by auto
  have "similarities np rows q ! i = dot np (normalized np (rows ! i)) (normalized np q)"
    using i by (simp add: similarities_def)
  then show "similarities np rows q ! i = NaN"
    using similarity_zero[OF assms(7) len ne z] by simp
qed

theorem search_scores_witness:
  "search numpy_on_examples \<lparr>collection_name = ''documents'', persist_directory = ''data'',
        documents = [''a'', ''b''], embeddings = Some (Arr2 2 [[1, 0], [0, 0]]),
        metadatas = [[], []] :: unit dict list, ids = [''id0'', ''id1'']\<rparr> [1, 0] 2 =
     Inr [\<lparr>result_id = ''id1'', content = ''b'', metadata = [], score = NaN\<rparr>,
          \<lparr>result_id = ''id0'', content = ''a'', metadata = [], score = Fin 1\<rparr>]
   \<and> similarities numpy_on_examples [[1, 0], [0, 0]] [1, 0] ! 1 = NaN"
proof -
  have e: "search numpy_on_examples \<lparr>collection_name = ''documents'', persist_directory = ''data'',
        documents = [''a'', ''b''], embeddings = Some (Arr2 2 [[1, 0], [0, 0]]),
        metadatas = [[], []] :: unit dict list, ids = [''id0'', ''id1'']\<rparr> [1, 0] 2 =
     Inr [\<lparr>result_id = ''id1'', content = ''b'', metadata = [], score = NaN\<rparr>,
          \<lparr>result_id = ''id0'', content = ''a'', metadata = [], score = Fin 1\<rparr>]"
    by (simp add: search_eval)
  show ?thesis
    using search_scores
      [of "\<lparr>collection_name = ''documents'', persist_directory = ''data'',
        documents = [''a'', ''b''], embeddings = Some (Arr2 2 [[1, 0], [0, 0]]),
        metadatas = [[], []] :: unit dict list, ids = [''id0'', ''id1'']\<rparr>" 2 "[[1, 0], [0, 0]]" "[1, 0]" numpy_on_examples 2]
      valid_argsort_insertion[of Fin] e
    by (auto simp: wf_store_def numpy_on_examples_def)
qed

section \<open>Properties of the text processor\<close>

subsection \<open>Auxiliary facts about the text processor\<close>

lemma isspace_space: "isspace space"
  by (simp add: isspace_def)

lemma length_py_strip: "length (py_strip s) \<le> length s"
proof -
  have "length (py_strip s) \<le> length (dropWhile isspace s)"
    unfolding py_strip_def using length_dropWhile_le[of isspace "rev (dropWhile isspace s)"]
    by simp
  also have "\<dots> \<le> length s" by (rule length_dropWhile_le)
  finally show ?thesis .
qed

lemma py_strip_Nil: "py_strip [] = []"
  by (simp add: py_strip_def)

lemma dropWhile_all_space: "\<forall>c \<in> set s. isspace c \<Longrightarrow> dropWhile isspace s = []"
  by simp

lemma py_strip_all_space: "\<forall>c \<in> set s. isspace c \<Longrightarrow> py_strip s = []"
  by (simp add: py_strip_def dropWhile_all_space)

lemma collapse_whitespace_all_space:
  "\<forall>c \<in> set t. isspace c \<Longrightarrow> collapse_whitespace t = (if t = [] then [] else [space])"
  by (cases t) (simp_all add: dropWhile_all_space)

lemma clean_text_all_space: "\<forall>c \<in> set t. isspace c \<Longrightarrow> clean_text t = []"
  by (simp add: clean_text_def collapse_whitespace_all_space py_strip_def isspace_space)

lemma recursive_split_Nil: "p \<in> set (recursive_split c [] seps) \<Longrightarrow> p = []"
  by (induction seps arbitrary: p) (auto split: if_splits)

lemma merge_step_skip: "py_strip x = [] \<Longrightarrow> merge_step c st x = st"
  by (simp add: merge_step_def)

lemma foldl_merge_step_skip:
  "\<forall>x \<in> set xs. py_strip x = [] \<Longrightarrow> foldl (merge_step c) st xs = st"
  by (induction xs arbitrary: st) (simp_all add: merge_step_skip)

lemma merge_chunks_all_empty:
  assumes "\<forall>x \<in> set xs. x = []"
  shows "merge_chunks tp xs = Inr []"
proof -
  from assms have "\<forall>x \<in> set xs. py_strip x = []" by (auto simp: py_strip_Nil)
  then have "merged_chunks (chunk_size tp) xs = []"
    by (simp add: merged_chunks_def foldl_merge_step_skip)
  then show ?thesis by (simp add: merge_chunks_def)
qed

lemma recursive_split_lengths:
  "[] \<in> set seps \<Longrightarrow> p \<in> set (recursive_split c t seps) \<Longrightarrow>
   int (length p) \<le> c \<or> length p = 1"
proof (induction seps arbitrary: t p)
  case Nil
  then show ?case by simp
next
  case (Cons sep seps)
  show ?case
  proof (cases "sep = []")
    case True
    then show ?thesis using Cons.prems(2) by auto
  next
    case False
    then have mem: "[] \<in> set seps" using Cons.prems(1) by auto
    from Cons.prems(2) False obtain x where x: "x \<in> set (py_split sep t)"
      and p: "p \<in> set (if int (length x) \<le> c then [x] else recursive_split c x seps)"
      by auto
    show ?thesis
    proof (cases "int (length x) \<le> c")
      case True
      then show ?thesis using p by simp
    next
      case False
      then show ?thesis using p Cons.IH[OF mem] by simp
    qed
  qed
qed

lemma merge_step_within:
  assumes "\<forall>m \<in> set (fst st). fits c m" "fits c (snd st)" "fits c x"
  shows "(\<forall>m \<in> set (fst (merge_step c st x)). fits c m) \<and> fits c (snd (merge_step c st x))"
proof -
  have s: "fits c (py_strip x)"
    using assms(3) length_py_strip[of x] by (simp add: fits_def)
  have j: "int (length (snd st)) + int (length (py_strip x)) + 1 \<le> c \<Longrightarrow>
           fits c (py_strip (snd st @ '' '' @ py_strip x))"
    using length_py_strip[of "snd st @ '' '' @ py_strip x"] by (simp add: fits_def)
  show ?thesis
    using assms(1,2) s j by (auto simp: merge_step_def Let_def)
qed

lemma foldl_merge_step_within:
  assumes "\<forall>x \<in> set xs. fits c x" "\<forall>m \<in> set (fst st). fits c m" "fits c (snd st)"
  shows "(\<forall>m \<in> set (fst (foldl (merge_step c) st xs)). fits c m)
       \<and> fits c (snd (foldl (merge_step c) st xs))"
  using assms
proof (induction xs arbitrary: st)
  case Nil
  then show ?case by simp
next
  case (Cons x xs)
  have "(\<forall>m \<in> set (fst (merge_step c st x)). fits c m) \<and> fits c (snd (merge_step c st x))"
    using Cons.prems by (intro merge_step_within) simp_all
  then show ?case using Cons.IH[of "merge_step c st x"] Cons.prems(1) by simp
qed

lemma merged_chunks_within:
  assumes "\<forall>x \<in> set xs. fits c x" "0 \<le> c"
  shows "\<forall>m \<in> set (merged_chunks c xs). fits c m"
proof -
  have "(\<forall>m \<in> set (fst (foldl (merge_step c) ([], []) xs)). fits c m)
       \<and> fits c (snd (foldl (merge_step c) ([], []) xs))"
    using assms by (intro foldl_merge_step_within) (simp_all add: fits_def)
  then show ?thesis by (auto simp: merged_chunks_def Let_def)
qed

lemma length_slice_from_neg: "0 < n \<Longrightarrow> int (length (slice_from (- n) xs)) \<le> n"
  by (auto simp: slice_from_def)

lemma length_slice_from_le: "length (slice_from i xs) \<le> length xs"
  by (simp add: slice_from_def)

lemma length_overlap_text:
  assumes "0 < n"
  shows "int (length (overlap_text n prev)) \<le> n"
proof -
  let ?w = "slice_from (- n) prev"
  have "overlap_text n prev = ?w \<or> overlap_text n prev = slice_from (find_space ?w + 1) ?w"
    by (simp add: overlap_text_def Let_def)
  then have "length (overlap_text n prev) \<le> length ?w"
    using length_slice_from_le[of "find_space ?w + 1" ?w] by auto
  then show ?thesis using length_slice_from_neg[OF assms, of prev] by linarith
qed

lemma length_overlapped:
  "0 < n \<Longrightarrow> int (length (overlapped n prev cur)) \<le> n + 1 + int (length cur)"
  using length_py_strip[of "overlap_text n prev @ '' '' @ cur"] length_overlap_text[of n prev]
  by (simp add: overlapped_def)

lemma add_overlap_Inr:
  "chunks \<noteq> [] \<Longrightarrow>
   add_overlap tp chunks =
     Inr (hd chunks #
          map (\<lambda>i. overlapped (chunk_overlap tp) (chunks ! (i - 1)) (chunks ! i))
              [1..<length chunks])"
  by (simp add: add_overlap_def hd_conv_nth)

lemma all_dropWhile: "(\<forall>x \<in> set (dropWhile P s). P x) \<longleftrightarrow> (\<forall>x \<in> set s. P x)"
  by (induction s) auto

lemma py_strip_eq_Nil: "py_strip s = [] \<longleftrightarrow> (\<forall>c \<in> set s. isspace c)"
  by (simp add: py_strip_def all_dropWhile)

lemma hd_py_strip: "py_strip s \<noteq> [] \<Longrightarrow> \<not> isspace (hd (py_strip s))"
proof -
  assume ne: "py_strip s \<noteq> []"
  let ?a = "dropWhile isspace s"
  have a: "?a \<noteq> []" using ne by (simp add: py_strip_eq_Nil)
  have "dropWhile isspace (rev ?a) \<noteq> []" using ne by (simp add: py_strip_def)
  then obtain x xs where x: "dropWhile isspace (rev ?a) = x # xs" by (cases "dropWhile isspace (rev ?a)") auto
  have "rev ?a = takeWhile isspace (rev ?a) @ x # xs"
    using takeWhile_dropWhile_id[of isspace "rev ?a"] x by simp
  then have "?a = rev (x # xs) @ rev (takeWhile isspace (rev ?a))"
    by (metis rev_append rev_rev_ident)
  then have "hd ?a = hd (rev (x # xs))" by (metis hd_append2 rev_is_Nil_conv list.distinct(1))
  moreover have "\<not> isspace (hd ?a)" using a hd_dropWhile[of isspace s] by simp
  ultimately show ?thesis by (simp add: py_strip_def x)
qed

lemma last_py_strip: "py_strip s \<noteq> [] \<Longrightarrow> \<not> isspace (last (py_strip s))"
proof -
  assume ne: "py_strip s \<noteq> []"
  then have "dropWhile isspace (rev (dropWhile isspace s)) \<noteq> []" by (simp add: py_strip_def)
  then have "\<not> isspace (hd (dropWhile isspace (rev (dropWhile isspace s))))"
    by (rule hd_dropWhile)
  then show ?thesis using ne by (simp add: py_strip_def last_rev)
qed

lemma trimmed_py_strip: "py_strip s \<noteq> [] \<Longrightarrow> trimmed (py_strip s)"
  by (simp add: trimmed_def hd_py_strip last_py_strip)

lemma py_strip_join:
  assumes "dropWhile isspace a \<noteq> []" "trimmed cur"
  shows "py_strip (a @ '' '' @ cur) = dropWhile isspace a @ '' '' @ cur"
proof -
  have 1: "dropWhile isspace (a @ '' '' @ cur) = dropWhile isspace a @ '' '' @ cur"
    using assms(1) by (auto simp: dropWhile_append)
  have "rev cur \<noteq> [] \<and> \<not> isspace (hd (rev cur))"
    using assms(2) by (simp add: trimmed_def hd_rev)
  then have "dropWhile isspace (rev cur) = rev cur" by (cases "rev cur") auto
  then have "dropWhile isspace (rev cur @ rev ('' '') @ rev (dropWhile isspace a))
             = rev cur @ rev ('' '') @ rev (dropWhile isspace a)"
    using assms(2) by (cases "rev cur") (auto simp: trimmed_def)
  then show ?thesis
    unfolding py_strip_def 1 by simp
qed

lemma set_py_strip: "set (py_strip s) \<subseteq> set s"
  by (auto simp: py_strip_def dest!: set_dropWhileD)

lemma plain_py_strip: "plain s \<Longrightarrow> plain (py_strip s)"
  using set_py_strip[of s] by (auto simp: plain_def)

lemma plain_collapse_whitespace: "plain (collapse_whitespace t)"
  by (induction t rule: collapse_whitespace.induct) (auto simp: plain_def)

lemma set_collapse_newlines: "set (collapse_newlines s) \<subseteq> set s"
proof (induction s rule: collapse_newlines.induct)
  case 1
  then show ?case by simp
next
  case (2 c cs)
  show ?case
  proof (cases "c = newline")
    case True
    have "set (takeWhile (\<lambda>x. x = newline) cs) \<subseteq> set cs"
      by (auto dest: set_takeWhileD)
    moreover have "set (dropWhile (\<lambda>x. x = newline) cs) \<subseteq> set cs"
      by (auto dest: set_dropWhileD)
    ultimately show ?thesis using 2(1) True by (auto simp: Let_def)
  next
    case False
    then show ?thesis using 2(2) by auto
  qed
qed

lemma plain_clean_text: "plain (clean_text t)"
proof -
  have "plain (collapse_newlines (collapse_whitespace t))"
    using plain_collapse_whitespace[of t] set_collapse_newlines[of "collapse_whitespace t"]
    by (auto simp: plain_def)
  then show ?thesis unfolding clean_text_def by (rule plain_py_strip)
qed

lemma set_py_split: "p \<in> set (py_split sep t) \<Longrightarrow> set p \<subseteq> set t"
proof (induction sep t arbitrary: p rule: py_split.induct)
  case (1 sep)
  then show ?case by simp
next
  case (2 sep c cs)
  show ?case
  proof (cases "sep \<noteq> [] \<and> take (length sep) (c # cs) = sep")
    case True
    then have "p = [] \<or> p \<in> set (py_split sep (drop (length sep) (c # cs)))"
      using "2.prems" by auto
    then show ?thesis
    proof
      assume "p = []" then show ?thesis by simp
    next
      assume "p \<in> set (py_split sep (drop (length sep) (c # cs)))"
      then have "set p \<subseteq> set (drop (length sep) (c # cs))"
        using "2.IH"(1) True by blast
      then show ?thesis using set_drop_subset[of "length sep" "c # cs"] by blast
    qed
  next
    case False
    show ?thesis
    proof (cases "py_split sep cs")
      case Nil
      then show ?thesis using "2.prems" False by auto
    next
      case (Cons q qs)
      then have "p = c # q \<or> p \<in> set qs" using "2.prems" False by auto
      moreover have "set q \<subseteq> set cs" using "2.IH"(2)[of q] False Cons by auto
      moreover have "p \<in> set qs \<Longrightarrow> set p \<subseteq> set cs" using "2.IH"(2)[of p] False Cons by auto
      ultimately show ?thesis by auto
    qed
  qed
qed

lemma set_recursive_split: "p \<in> set (recursive_split c t seps) \<Longrightarrow> set p \<subseteq> set t"
proof (induction seps arbitrary: t p)
  case Nil
  then show ?case by simp
next
  case (Cons sep seps)
  show ?case
  proof (cases "sep = []")
    case True
    then show ?thesis using Cons.prems by auto
  next
    case False
    from Cons.prems False obtain x where x: "x \<in> set (py_split sep t)"
      and p: "p \<in> set (if int (length x) \<le> c then [x] else recursive_split c x seps)"
      by auto
    have "set p \<subseteq> set x"
      using p Cons.IH[of p x] by (auto split: if_splits)
    then show ?thesis using set_py_split[OF x] by blast
  qed
qed

lemma merge_step_ok:
  assumes "\<forall>m \<in> set (fst st). chunk_ok m" "snd st = [] \<or> chunk_ok (snd st)" "plain x"
  shows "(\<forall>m \<in> set (fst (merge_step c st x)). chunk_ok m)
       \<and> (snd (merge_step c st x) = [] \<or> chunk_ok (snd (merge_step c st x)))"
proof (cases "py_strip x = []")
  case True
  then show ?thesis using assms by (simp add: merge_step_def)
next
  case False
  have x: "chunk_ok (py_strip x)"
    using False assms(3) by (simp add: chunk_ok_def trimmed_py_strip plain_py_strip)
  have "plain (snd st)" using assms(2) by (auto simp: chunk_ok_def plain_def)
  then have pj: "plain (snd st @ '' '' @ py_strip x)"
    using x by (auto simp: chunk_ok_def plain_def)
  have "hd (py_strip x) \<in> set (py_strip x)" "\<not> isspace (hd (py_strip x))"
    using x by (simp_all add: chunk_ok_def trimmed_def)
  then have "\<not> (\<forall>c \<in> set (snd st @ '' '' @ py_strip x). isspace c)"
    by auto
  then have "py_strip (snd st @ '' '' @ py_strip x) \<noteq> []"
    by (simp only: py_strip_eq_Nil not_False_eq_True)
  then have j: "chunk_ok (py_strip (snd st @ '' '' @ py_strip x))"
    using pj by (simp add: chunk_ok_def trimmed_py_strip plain_py_strip)
  show ?thesis
    using assms(1,2) x j False by (auto simp: merge_step_def Let_def)
qed

lemma foldl_merge_step_ok:
  assumes "\<forall>x \<in> set xs. plain x" "\<forall>m \<in> set (fst st). chunk_ok m" "snd st = [] \<or> chunk_ok (snd st)"
  shows "(\<forall>m \<in> set (fst (foldl (merge_step c) st xs)). chunk_ok m)
       \<and> (snd (foldl (merge_step c) st xs) = [] \<or> chunk_ok (snd (foldl (merge_step c) st xs)))"
  using assms
proof (induction xs arbitrary: st)
  case Nil
  then show ?case by simp
next
  case (Cons x xs)
  have "(\<forall>m \<in> set (fst (merge_step c st x)). chunk_ok m)
       \<and> (snd (merge_step c st x) = [] \<or> chunk_ok (snd (merge_step c st x)))"
    using Cons.prems by (intro merge_step_ok) simp_all
  then show ?case using Cons.IH[of "merge_step c st x"] Cons.prems(1) by simp
qed

lemma merged_chunks_ok:
  assumes "\<forall>x \<in> set xs. plain x"
  shows "\<forall>m \<in> set (merged_chunks c xs). chunk_ok m"
proof -
  have "(\<forall>m \<in> set (fst (foldl (merge_step c) ([], []) xs)). chunk_ok m)
       \<and> (snd (foldl (merge_step c) ([], []) xs) = []
          \<or> chunk_ok (snd (foldl (merge_step c) ([], []) xs)))"
    using assms by (intro foldl_merge_step_ok) simp_all
  then show ?thesis by (auto simp: merged_chunks_def Let_def)
qed

lemma pre_overlap_chunks_ok: "m \<in> set (pre_overlap_chunks tp t) \<Longrightarrow> chunk_ok m"
proof -
  have "\<forall>x \<in> set (recursive_split (chunk_size tp) (clean_text t) (separators tp)). plain x"
    using set_recursive_split plain_clean_text[of t] by (fastforce simp: plain_def)
  then show "m \<in> set (pre_overlap_chunks tp t) \<Longrightarrow> chunk_ok m"
    unfolding pre_overlap_chunks_def using merged_chunks_ok by blast
qed

lemma word_aligned_suffixI:
  assumes "prev = pre @ s" "s \<noteq> []" "pre = [] \<or> last pre = space"
  shows "word_aligned_suffix prev s"
proof (cases "pre = []")
  case True
  then show ?thesis using assms(1,2) by (simp add: word_aligned_suffix_def)
next
  case False
  then have "last pre = space" using assms(3) by simp
  moreover have "prev ! (length prev - length s - 1) = last pre"
    using False assms(1) by (simp add: nth_append last_conv_nth)
  ultimately show ?thesis using assms(1,2) by (simp add: word_aligned_suffix_def)
qed

lemma aligned_after_strip:
  assumes "prev = pre @ ot" "chunk_ok prev" "ot \<noteq> []"
    and "(pre \<noteq> [] \<and> last pre = space) \<or> hd ot = space"
  shows "dropWhile isspace ot \<noteq> [] \<and> word_aligned_suffix prev (dropWhile isspace ot)"
proof -
  let ?tw = "takeWhile isspace ot"
  let ?o = "dropWhile isspace ot"
  have lp: "\<not> isspace (last prev)" and pl: "plain prev"
    using assms(2) by (simp_all add: chunk_ok_def trimmed_def)
  have "last ot = last prev" using assms(1,3) by simp
  then have "last ot \<in> set ot \<and> \<not> isspace (last ot)"
    using lp last_in_set[OF assms(3)] by simp
  then have ne: "?o \<noteq> []" by (auto simp: dropWhile_eq_Nil_conv)
  have dec: "prev = (pre @ ?tw) @ ?o" using assms(1) by simp
  have "pre @ ?tw = [] \<or> last (pre @ ?tw) = space"
  proof (cases "?tw = []")
    case True
    then have "\<not> isspace (hd ot)" using assms(3) by (cases ot) (auto split: if_splits)
    then have "pre \<noteq> [] \<and> last pre = space" using assms(4) isspace_space by auto
    then show ?thesis using True by simp
  next
    case False
    then have "last ?tw \<in> set ?tw" by simp
    then have "last ?tw \<in> set ot \<and> isspace (last ?tw)" by (auto dest: set_takeWhileD)
    then have "last ?tw = space" using pl assms(1) by (auto simp: plain_def)
    then show ?thesis using False by simp
  qed
  then have "word_aligned_suffix prev ?o"
    using dec ne by (intro word_aligned_suffixI[of prev "pre @ ?tw" ?o]) simp_all
  then show ?thesis using ne by simp
qed

lemma window_decomp:
  assumes "0 < n" "prev \<noteq> []"
  shows "slice_from (- n) prev \<noteq> []"
    and "prev = take (length prev - nat n) prev @ slice_from (- n) prev"
proof -
  have "0 < nat n" "0 < length prev" using assms by simp_all
  then have "length prev - nat n < length prev" by linarith
  then show "slice_from (- n) prev \<noteq> []" using assms(1) by (simp add: slice_from_def)
  show "prev = take (length prev - nat n) prev @ slice_from (- n) prev"
    using assms(1) by (simp add: slice_from_def)
qed

lemma find_space_nth:
  assumes "space \<in> set w"
  shows "find_space w = int (length (takeWhile (\<lambda>c. c \<noteq> space) w))"
    and "length (takeWhile (\<lambda>c. c \<noteq> space) w) < length w"
    and "w ! length (takeWhile (\<lambda>c. c \<noteq> space) w) = space"
proof -
  show "find_space w = int (length (takeWhile (\<lambda>c. c \<noteq> space) w))"
    using assms by (simp add: find_space_def)
  show l: "length (takeWhile (\<lambda>c. c \<noteq> space) w) < length w"
  proof (rule ccontr)
    assume "\<not> length (takeWhile (\<lambda>c. c \<noteq> space) w) < length w"
    then have "length (takeWhile (\<lambda>c. c \<noteq> space) w) = length w"
      using length_takeWhile_le[of "\<lambda>c. c \<noteq> space" w] by linarith
    then have "takeWhile (\<lambda>c. c \<noteq> space) w = w"
      using takeWhile_eq_take[of "\<lambda>c. c \<noteq> space" w] by simp
    then have "\<forall>c \<in> set w. c \<noteq> space" by (simp only: takeWhile_eq_all_conv)
    then show False using assms by blast
  qed
  show "w ! length (takeWhile (\<lambda>c. c \<noteq> space) w) = space"
    using nth_length_takeWhile[OF l] by simp
qed

lemma overlapped_no_space:
  assumes "0 < n" "chunk_ok prev" "trimmed cur" "space \<notin> set (slice_from (- n) prev)"
  shows "overlapped n prev cur = slice_from (- n) prev @ '' '' @ cur"
proof -
  let ?w = "slice_from (- n) prev"
  have pne: "prev \<noteq> []" using assms(2) by (simp add: chunk_ok_def trimmed_def)
  have wne: "?w \<noteq> []" using window_decomp(1)[OF assms(1) pne] .
  have "set ?w \<subseteq> set prev"
    by (auto simp: slice_from_def dest: in_set_dropD)
  then have nows: "\<forall>c \<in> set ?w. \<not> isspace c"
    using assms(2,4) by (auto simp: chunk_ok_def plain_def)
  have fs: "find_space ?w = - 1" using assms(4) by (simp add: find_space_def)
  have "hd ?w \<in> set ?w" using wne by (rule hd_in_set)
  then have "hd ?w \<noteq> space" using assms(4) by auto
  then have ot: "overlap_text n prev = ?w"
    using fs by (simp add: overlap_text_def Let_def)
  have dw: "dropWhile isspace ?w = ?w"
    using wne nows by (cases ?w) auto
  show ?thesis
    unfolding overlapped_def ot
    using py_strip_join[of ?w cur] dw wne assms(3) by simp
qed

lemma overlapped_with_space:
  assumes "0 < n" "chunk_ok prev" "trimmed cur" "space \<in> set (slice_from (- n) prev)"
  shows "starts_with_overlap n prev cur (overlapped n prev cur)"
proof -
  let ?w = "slice_from (- n) prev"
  let ?k = "length prev - nat n"
  let ?ot = "overlap_text n prev"
  have pne: "prev \<noteq> []" and lp: "\<not> isspace (last prev)"
    using assms(2) by (simp_all add: chunk_ok_def trimmed_def)
  have wne: "?w \<noteq> []" and dec: "prev = take ?k prev @ ?w"
    using window_decomp[OF assms(1) pne] by simp_all
  have "last (take ?k prev @ ?w) = last ?w" using wne by (rule last_appendR)
  then have lw: "last ?w = last prev" using dec by simp
  have "\<exists>pre. prev = pre @ ?ot \<and> ?ot \<noteq> [] \<and> ((pre \<noteq> [] \<and> last pre = space) \<or> hd ?ot = space)"
  proof (cases "hd ?w = space")
    case True
    then have "?ot = ?w" using wne by (simp add: overlap_text_def Let_def)
    then show ?thesis using dec wne True by auto
  next
    case False
    let ?j = "length (takeWhile (\<lambda>c. c \<noteq> space) ?w)"
    note fs = find_space_nth[OF assms(4)]
    have ot: "?ot = drop (Suc ?j) ?w"
      using False fs(1) by (simp add: overlap_text_def Let_def slice_from_def nat_add_distrib)
    have "?j \<noteq> length ?w - 1"
    proof
      assume "?j = length ?w - 1"
      then have "last ?w = space" using fs(3) wne by (simp add: last_conv_nth)
      then show False using lw lp isspace_space by simp
    qed
    then have j: "Suc ?j < length ?w" using fs(2) by linarith
    then have one: "?ot \<noteq> []" using ot by simp
    have "?w = take (Suc ?j) ?w @ ?ot" using ot by simp
    then have d2: "prev = (take ?k prev @ take (Suc ?j) ?w) @ ?ot" using dec by simp
    have "take (Suc ?j) ?w = take ?j ?w @ [?w ! ?j]"
      using fs(2) by (rule take_Suc_conv_app_nth)
    then have "last (take (Suc ?j) ?w) = ?w ! ?j" by simp
    moreover have tne: "take (Suc ?j) ?w \<noteq> []" using wne by simp
    ultimately have "last (take ?k prev @ take (Suc ?j) ?w) = space \<and> take ?k prev @ take (Suc ?j) ?w \<noteq> []"
      using fs(3) last_appendR[OF tne, of "take ?k prev"] by simp
    then show ?thesis using d2 one by blast
  qed
  then obtain pre where pre: "prev = pre @ ?ot" "?ot \<noteq> []"
    "(pre \<noteq> [] \<and> last pre = space) \<or> hd ?ot = space" by blast
  let ?o = "dropWhile isspace ?ot"
  have al: "?o \<noteq> []" "word_aligned_suffix prev ?o"
    using aligned_after_strip[OF pre(1) assms(2) pre(2,3)] by simp_all
  have ov: "overlapped n prev cur = ?o @ '' '' @ cur"
    unfolding overlapped_def using py_strip_join[OF al(1) assms(3)] .
  have "length ?o \<le> length ?ot" by (rule length_dropWhile_le)
  then have len: "int (length ?o) \<le> n" using length_overlap_text[OF assms(1), of prev] by linarith
  show ?thesis
    unfolding starts_with_overlap_def ov using al(2) len by (simp add: Let_def)
qed

lemma nth_overlap_result:
  assumes "0 < i" "i < length m"
  shows "(hd m # map (\<lambda>i. overlapped n (m ! (i - 1)) (m ! i)) [1..<length m]) ! i =
         overlapped n (m ! (i - 1)) (m ! i)"
proof -
  obtain j where j: "i = Suc j" using assms(1) by (cases i) auto
  then have "j < length [1..<length m]" using assms(2) by simp
  then have "map (\<lambda>i. overlapped n (m ! (i - 1)) (m ! i)) [1..<length m] ! j =
             overlapped n (m ! ([1..<length m] ! j - 1)) (m ! ([1..<length m] ! j))"
    by (rule nth_map)
  moreover have "[1..<length m] ! j = i" using j assms(2) by simp
  ultimately show ?thesis using j by simp
qed

subsection \<open>Claims about the text processor\<close>

text \<open>
  C8. When the normalised text is no longer than \<open>chunk_size\<close>, \<open>split_text\<close> returns
  without an exception: exactly the normalised text as its one chunk, or no chunk when the
  normalised text is empty. A text that is empty or consists of whitespace only
  normalises to the empty text and yields no chunk and no exception, whatever the
  configuration is.
\<close>

theorem split_text_short:
  "(int (length (clean_text t)) \<le> chunk_size tp \<longrightarrow>
      split_text tp t = Inr (if clean_text t = [] then [] else [clean_text t]))
   \<and> ((\<forall>c \<in> set t. isspace c) \<longrightarrow> clean_text t = [] \<and> split_text tp t = Inr [])"
proof (intro conjI impI)
  assume "int (length (clean_text t)) \<le> chunk_size tp"
  then show "split_text tp t = Inr (if clean_text t = [] then [] else [clean_text t])"
    by (simp add: split_text_def Let_def)
next
  assume a: "\<forall>c \<in> set t. isspace c"
  then show "clean_text t = []" by (rule clean_text_all_space)
  then have e: "clean_text t = []" .
  have "merge_chunks tp (recursive_split (chunk_size tp) [] (separators tp)) = Inr []"
    using recursive_split_Nil by (intro merge_chunks_all_empty) blast
  then show "split_text tp t = Inr []"
    by (simp add: split_text_def Let_def e)
qed

theorem split_text_short_witness:
  "split_text (TextProcessor default_settings None None) ''  hello   world  '' = Inr [''hello world'']
   \<and> split_text (TextProcessor default_settings None None) ''   '' = Inr []"
proof -
  have e: "clean_text ''  hello   world  '' = ''hello world''" by code_simp
  have s: "\<forall>c \<in> set ''   ''. isspace c" by (simp add: isspace_def)
  show ?thesis
    using split_text_short[of "''  hello   world  ''" "TextProcessor default_settings None None"]
      split_text_short[of "''   ''" "TextProcessor default_settings None None"] e s
    by (simp add: TextProcessor_def default_settings_def)
qed

text \<open>
  C4 (as stated: no chunk is longer than \<open>chunk_size\<close> unless an atomic unit is). With
  \<open>chunk_size = 10\<close> and \<open>chunk_overlap = 5\<close> the text splits into two units of 10
  characters each, none longer than \<open>chunk_size\<close>; the second chunk returned has 16
  characters, because the overlap is put in front of a chunk that is already full.
\<close>

theorem split_text_bound_counterexample:
  "recursive_split 10 (clean_text ''aaaaaaaaaa bbbbbbbbbb'') default_separators =
     [''aaaaaaaaaa'', ''bbbbbbbbbb'']
   \<and> split_text \<lparr>chunk_size = 10, chunk_overlap = 5, separators = default_separators\<rparr>
        ''aaaaaaaaaa bbbbbbbbbb'' = Inr [''aaaaaaaaaa'', ''aaaaa bbbbbbbbbb'']
   \<and> length ''aaaaa bbbbbbbbbb'' = 16"
  by code_simp

text \<open>
  C4 (amended). For \<open>chunk_size \<ge> 1\<close> and a separator list that holds the empty
  separator, \<open>split_text\<close> returns without an exception; the first chunk has at most
  \<open>chunk_size\<close> characters, and every chunk has at most \<open>chunk_size\<close> characters when
  \<open>chunk_overlap \<le> 0\<close> and at most \<open>chunk_size + chunk_overlap + 1\<close> characters when
  \<open>chunk_overlap > 0\<close>.
\<close>

theorem split_text_chunk_bound:
  assumes "1 \<le> chunk_size tp" "[] \<in> set (separators tp)"
  shows "\<exists>cs. split_text tp t = Inr cs
          \<and> (\<forall>c \<in> set cs. int (length c) \<le>
                chunk_size tp + (if 0 < chunk_overlap tp then chunk_overlap tp + 1 else 0))
          \<and> (cs \<noteq> [] \<longrightarrow> int (length (hd cs)) \<le> chunk_size tp)"
proof (cases "int (length (clean_text t)) \<le> chunk_size tp")
  case True
  then show ?thesis by (simp add: split_text_def Let_def)
next
  case False
  let ?c = "chunk_size tp"
  let ?pieces = "recursive_split ?c (clean_text t) (separators tp)"
  let ?m = "merged_chunks ?c ?pieces"
  have st: "split_text tp t = merge_chunks tp ?pieces"
    using False by (simp add: split_text_def Let_def)
  have "\<forall>p \<in> set ?pieces. fits ?c p"
    using recursive_split_lengths[OF assms(2)] assms(1) by (fastforce simp: fits_def)
  then have m: "\<forall>x \<in> set ?m. fits ?c x"
    using assms(1) by (intro merged_chunks_within) simp_all
  show ?thesis
  proof (cases "?pieces \<noteq> [] \<and> 0 < chunk_overlap tp \<and> 1 < length ?m")
    case False
    then have "merge_chunks tp ?pieces = Inr ?m \<or> merge_chunks tp ?pieces = Inr []"
      by (auto simp: merge_chunks_def Let_def)
    moreover have "\<forall>x \<in> set ?m. int (length x) \<le>
        ?c + (if 0 < chunk_overlap tp then chunk_overlap tp + 1 else 0)"
      using m by (fastforce simp: fits_def)
    moreover have "?m \<noteq> [] \<longrightarrow> int (length (hd ?m)) \<le> ?c"
      using m by (simp add: fits_def)
    ultimately show ?thesis
      using st assms(1) by auto
  next
    case True
    then have ne: "?m \<noteq> []" by auto
    let ?cs = "hd ?m # map (\<lambda>i. overlapped (chunk_overlap tp) (?m ! (i - 1)) (?m ! i))
                           [1..<length ?m]"
    have r: "split_text tp t = Inr ?cs"
      using True st add_overlap_Inr[OF ne, of tp] by (simp add: merge_chunks_def Let_def)
    have h: "int (length (hd ?m)) \<le> ?c"
      using m ne by (simp add: fits_def)
    have "\<forall>i \<in> set [1..<length ?m].
            int (length (overlapped (chunk_overlap tp) (?m ! (i - 1)) (?m ! i)))
            \<le> ?c + (chunk_overlap tp + 1)"
    proof
      fix i assume "i \<in> set [1..<length ?m]"
      then have "?m ! i \<in> set ?m" by simp
      then have "int (length (?m ! i)) \<le> ?c" using m by (simp add: fits_def)
      then show "int (length (overlapped (chunk_overlap tp) (?m ! (i - 1)) (?m ! i)))
            \<le> ?c + (chunk_overlap tp + 1)"
        using length_overlapped[of "chunk_overlap tp" "?m ! (i - 1)" "?m ! i"] True by linarith
    qed
    then have "\<forall>c \<in> set ?cs. int (length c) \<le> ?c + (chunk_overlap tp + 1)"
      using h True by auto
    then show ?thesis
      using r h True by simp
  qed
qed

theorem split_text_chunk_bound_witness:
  "\<exists>cs. split_text (TextProcessor default_settings (Some 10) (Some 5))
           ''ab cd efgh ijklmnopqr'' = Inr cs
        \<and> cs \<noteq> [] \<and> int (length (hd cs)) \<le> 10"
proof -
  have e: "split_text (TextProcessor default_settings (Some 10) (Some 5))
             ''ab cd efgh ijklmnopqr'' \<noteq> Inr []"
    by code_simp
  show ?thesis
    using split_text_chunk_bound
      [of "TextProcessor default_settings (Some 10) (Some 5)" "''ab cd efgh ijklmnopqr''"] e
    by (auto simp: TextProcessor_def default_separators_def)
qed

text \<open>
  C5 (as stated: every later chunk starts with a word-aligned suffix of the chunk before
  it). With \<open>chunk_size = 12\<close> and \<open>chunk_overlap = 4\<close> the chunks before the overlap are
  \<open>abcdefghij\<close> and \<open>klmnopqrst\<close>. The last four characters of the first hold no space, so
  the second chunk returned starts with \<open>ghij\<close>, cut in the middle of a word.
\<close>

theorem split_text_overlap_counterexample:
  "pre_overlap_chunks \<lparr>chunk_size = 12, chunk_overlap = 4, separators = default_separators\<rparr>
     ''abcdefghij klmnopqrst'' = [''abcdefghij'', ''klmnopqrst'']
   \<and> split_text \<lparr>chunk_size = 12, chunk_overlap = 4, separators = default_separators\<rparr>
        ''abcdefghij klmnopqrst'' = Inr [''abcdefghij'', ''ghij klmnopqrst'']
   \<and> \<not> starts_with_overlap 4 ''abcdefghij'' ''klmnopqrst'' ''ghij klmnopqrst''"
  by code_simp

text \<open>
  C5 (amended). Let \<open>chunk_overlap > 0\<close> and let the text be longer than \<open>chunk_size\<close> with
  more than one chunk before the overlap. Then \<open>split_text\<close> returns as many chunks; the
  first is unchanged; and for every later chunk, with \<open>w\<close> the last \<open>chunk_overlap\<close>
  characters of the chunk before it (before the overlap): if \<open>w\<close> holds a space, the
  chunk is a word-aligned suffix of the chunk before it, of at most \<open>chunk_overlap\<close>
  characters, one space, and the chunk itself; if \<open>w\<close> holds no space, the chunk is \<open>w\<close>
  as it is (which may start in the middle of a word), one space, and the chunk itself.
\<close>

theorem split_text_overlap:
  assumes "0 < chunk_overlap tp" "chunk_size tp < int (length (clean_text t))"
    and "1 < length (pre_overlap_chunks tp t)"
  shows "\<exists>cs. split_text tp t = Inr cs
          \<and> length cs = length (pre_overlap_chunks tp t)
          \<and> hd cs = hd (pre_overlap_chunks tp t)
          \<and> (\<forall>i. 0 < i \<and> i < length cs \<longrightarrow>
               (if space \<in> set (slice_from (- chunk_overlap tp) (pre_overlap_chunks tp t ! (i - 1)))
                then starts_with_overlap (chunk_overlap tp)
                       (pre_overlap_chunks tp t ! (i - 1)) (pre_overlap_chunks tp t ! i) (cs ! i)
                else cs ! i =
                       slice_from (- chunk_overlap tp) (pre_overlap_chunks tp t ! (i - 1))
                       @ '' '' @ pre_overlap_chunks tp t ! i))"
proof -
  let ?m = "pre_overlap_chunks tp t"
  let ?n = "chunk_overlap tp"
  let ?pieces = "recursive_split (chunk_size tp) (clean_text t) (separators tp)"
  let ?cs = "hd ?m # map (\<lambda>i. overlapped ?n (?m ! (i - 1)) (?m ! i)) [1..<length ?m]"
  have ne: "?m \<noteq> []" using assms(3) by auto
  have "?pieces \<noteq> []"
  proof
    assume "?pieces = []"
    then have "?m = []" by (simp add: pre_overlap_chunks_def merged_chunks_def)
    then show False using ne by simp
  qed
  then have "split_text tp t = add_overlap tp ?m"
    using assms by (simp add: split_text_def merge_chunks_def Let_def pre_overlap_chunks_def)
  then have r: "split_text tp t = Inr ?cs"
    using add_overlap_Inr[OF ne, of tp] by simp
  have len: "length ?cs = length ?m" using assms(3) by simp
  have "\<forall>i. 0 < i \<and> i < length ?cs \<longrightarrow>
               (if space \<in> set (slice_from (- ?n) (?m ! (i - 1)))
                then starts_with_overlap ?n (?m ! (i - 1)) (?m ! i) (?cs ! i)
                else ?cs ! i = slice_from (- ?n) (?m ! (i - 1)) @ '' '' @ ?m ! i)"
  proof (intro allI impI)
    fix i assume i: "0 < i \<and> i < length ?cs"
    then have i': "0 < i" "i < length ?m" using len by simp_all
    then have "?m ! i \<in> set ?m" "?m ! (i - 1) \<in> set ?m" by simp_all
    then have ok: "chunk_ok (?m ! (i - 1))" "trimmed (?m ! i)"
      using pre_overlap_chunks_ok[of _ tp t] by (auto simp: chunk_ok_def)
    have nth: "?cs ! i = overlapped ?n (?m ! (i - 1)) (?m ! i)"
      using i' by (rule nth_overlap_result)
    show "if space \<in> set (slice_from (- ?n) (?m ! (i - 1)))
          then starts_with_overlap ?n (?m ! (i - 1)) (?m ! i) (?cs ! i)
          else ?cs ! i = slice_from (- ?n) (?m ! (i - 1)) @ '' '' @ ?m ! i"
    proof (cases "space \<in> set (slice_from (- ?n) (?m ! (i - 1)))")
      case True
      then show ?thesis
        using overlapped_with_space[OF assms(1) ok True] by (simp only: nth if_True)
    next
      case False
      then show ?thesis
        using overlapped_no_space[OF assms(1) ok False] by (simp only: nth if_False)
    qed
  qed
  then show ?thesis using r len by (intro exI[of _ ?cs]) simp
qed

theorem split_text_overlap_witness:
  "\<exists>cs. split_text (TextProcessor default_settings (Some 10) (Some 5))
           ''ab cd efgh ijklmnopqr'' = Inr cs
        \<and> length cs = 2 \<and> hd cs = ''ab cd efgh''"
proof -
  have e: "pre_overlap_chunks (TextProcessor default_settings (Some 10) (Some 5))
             ''ab cd efgh ijklmnopqr'' = [''ab cd efgh'', ''ijklmnopqr'']"
    and l: "int (length (clean_text ''ab cd efgh ijklmnopqr'')) = 21"
    by code_simp+
  show ?thesis
    using split_text_overlap
      [of "TextProcessor default_settings (Some 10) (Some 5)" "''ab cd efgh ijklmnopqr''"] e l
    by (auto simp: TextProcessor_def)
qed

section \<open>Properties of the context assembly\<close>

lemma context_parts_loop_eq:
  "context_parts_loop i docs acc =
   acc @ map (\<lambda>k. enumerated_item (i + k) (content (docs ! k))) [0..<length docs]"
proof (induction docs arbitrary: i acc)
  case Nil
  then show ?case by simp
next
  case (Cons doc rest)
  have "map (\<lambda>k. enumerated_item (i + k) (content ((doc # rest) ! k))) [0..<length (doc # rest)] =
        enumerated_item i (content doc) #
        map (\<lambda>k. enumerated_item (Suc i + k) (content (rest ! k))) [0..<length rest]"
  proof -
    have "[Suc 0..<Suc (length rest)] = map Suc [0..<length rest]"
      by (simp only: map_Suc_upt)
    then have "map (\<lambda>k. enumerated_item (i + k) (content ((doc # rest) ! k))) [Suc 0..<Suc (length rest)] =
               map (\<lambda>k. enumerated_item (Suc i + k) (content (rest ! k))) [0..<length rest]"
      by (simp only: map_map) simp
    then show ?thesis by (simp add: upt_conv_Cons del: upt_Suc)
  qed
  then show ?case
    using Cons.IH[of "Suc i" "acc @ [enumerated_item i (content doc)]"]
    by (simp add: enumerated_item_def)
qed

lemma context_parts_enumerated:
  "join [newline, newline] (context_parts_loop 1 docs []) = enumerated_list docs"
  by (simp add: context_parts_loop_eq enumerated_list_def)

lemma build_context_unfold:
  "build_context st docs =
     (if docs = [] then ''No relevant context found.''
      else if cfg_max_context_length st < int (length (enumerated_list docs))
           then slice_to (cfg_max_context_length st) (enumerated_list docs) @ ''...''
           else enumerated_list docs)"
  unfolding build_context_def context_parts_enumerated Let_def by (rule refl)

text \<open>
  C6. \<open>_build_context\<close> returns the fixed marker for the empty list. For a non-empty
  list it returns the enumerated list joined by blank lines when that is not longer than
  \<open>max_context_length\<close>, and otherwise its first \<open>max_context_length\<close> characters followed
  by the marker \<open>...\<close> (for a maximum that is not negative). The default maximum is 2000.
\<close>

theorem build_context_spec:
  "build_context st ([] :: 'v search_result list) = ''No relevant context found.''
   \<and> (docs \<noteq> [] \<and> int (length (enumerated_list docs)) \<le> cfg_max_context_length st \<longrightarrow>
        build_context st docs = enumerated_list docs)
   \<and> (docs \<noteq> [] \<and> 0 \<le> cfg_max_context_length st \<and>
       cfg_max_context_length st < int (length (enumerated_list docs)) \<longrightarrow>
        build_context st docs =
          take (nat (cfg_max_context_length st)) (enumerated_list docs) @ ''...''
        \<and> int (length (build_context st docs)) = cfg_max_context_length st + 3)
   \<and> cfg_max_context_length default_settings = 2000"
  by (auto simp: build_context_unfold slice_to_def default_settings_def)

theorem build_context_spec_witness:
  "build_context default_settings two_results =
     ''[1] alpha'' @ [newline, newline] @ ''[2] beta''
   \<and> build_context (default_settings\<lparr>cfg_max_context_length := 5\<rparr>) two_results = ''[1] a...''"
proof -
  have e: "enumerated_list two_results = ''[1] alpha'' @ [newline, newline] @ ''[2] beta''"
    by code_simp
  have n: "two_results \<noteq> []" by (simp add: two_results_def)
  show ?thesis
    using build_context_spec[of default_settings two_results]
      build_context_spec[of "default_settings\<lparr>cfg_max_context_length := 5\<rparr>" two_results] e n
    by (auto simp: default_settings_def)
qed

section \<open>Properties of the persistence\<close>

lemma length_path_join:
  "length b = length b' \<Longrightarrow> b \<noteq> [] \<Longrightarrow> b' \<noteq> [] \<Longrightarrow> hd b = hd b' \<Longrightarrow>
   length (path_join a b) = length (path_join a b')"
  by (simp add: path_join_def)

lemma storage_path_neq_metadata_path: "get_storage_path s \<noteq> get_metadata_path s"
proof -
  let ?n = "collection_name s"
  let ?a = "persist_directory s"
  have "length (path_join ?a (?n @ ''.npz'')) + 6 = length (path_join ?a (?n @ ''_meta.json''))"
    by (cases ?n) (simp_all add: path_join_def)
  then show ?thesis
    unfolding get_storage_path_def get_metadata_path_def by (metis add_cancel_right_right zero_neq_numeral)
qed

lemma load_persist:
  assumes "documents s \<noteq> []" "embeddings s = Some e" "persist s d = (None, d')"
  shows "load (clear s) d' = s"
proof -
  have w: "writable d (get_storage_path s)" "writable d (get_metadata_path s)"
    using assms(1,3) by (auto simp: persist_def Let_def split: if_splits)
  have d': "d' = d\<lparr>files := (files d)
      (get_storage_path s \<mapsto> NpzFile e (documents s) (ids s),
       get_metadata_path s \<mapsto> JsonFile (metadatas s))\<rparr>"
    using assms w by (simp add: persist_def Let_def)
  have p: "get_storage_path (clear s) = get_storage_path s"
    "get_metadata_path (clear s) = get_metadata_path s"
    by (simp_all add: get_storage_path_def get_metadata_path_def clear_def)
  have q: "files d' (get_storage_path s) = Some (NpzFile e (documents s) (ids s))"
    "files d' (get_metadata_path s) = Some (JsonFile (metadatas s))"
    using storage_path_neq_metadata_path[of s] by (simp_all add: d')
  have "load (clear s) d' =
        (clear s)\<lparr>embeddings := Some e, documents := documents s, ids := ids s,
                   metadatas := metadatas s\<rparr>"
    unfolding load_def p q by simp
  then show ?thesis using assms(2) by (simp add: clear_def)
qed

lemma add_documents_fields:
  assumes "add_documents uuid4 s texts vectors metas idl = Inr (new_ids, s')"
  shows "collection_name s' = collection_name s" "persist_directory s' = persist_directory s"
    "documents s' = documents s @ texts" "texts \<noteq> [] \<Longrightarrow> embeddings s' \<noteq> None"
  using assms by (auto simp: add_documents_def Let_def split: if_splits sum.splits option.splits)

lemma add_documents_first:
  assumes "add_documents uuid4 s texts vectors metas idl = Inr (new_ids, s')"
    "texts \<noteq> []" "embeddings s = None"
  shows "np_array vectors = Inr (the (embeddings s'))"
  using assms by (auto simp: add_documents_def Let_def split: if_splits sum.splits option.splits)

lemma clear_load: "clear (load s d) = clear s"
  by (auto simp: load_def clear_def split: option.splits stored_file.splits)

lemma load_clear_absorb: "documents (load s d) = [] \<Longrightarrow> clear (load s d) = clear s"
  by (rule clear_load)

text \<open>
  C9. A store is opened on a location whose collection is empty; texts, vectors and
  metadata are added with success and \<open>persist\<close> raises nothing. Then a fresh store opened
  on the same location holds exactly the state that was persisted: its statistics count
  as many documents as texts were added, and its vectors are the stored ones, equal
  component by component (so within every tolerance); when the first store held no array,
  they are the array \<open>np.array\<close> makes of the vectors given.
\<close>

theorem persist_reload_roundtrip:
  assumes "s0 = VectorStore st name_arg dir_arg d0" and "documents s0 = []"
    and "add_documents uuid4 s0 texts vectors metas idl = Inr (new_ids, s1)"
    and "persist s1 d0 = (None, d1)"
  shows "document_count (get_stats (VectorStore st name_arg dir_arg d1)) = length texts
       \<and> embeddings (VectorStore st name_arg dir_arg d1) = embeddings s1
       \<and> documents (VectorStore st name_arg dir_arg d1) = texts
       \<and> (texts \<noteq> [] \<and> embeddings s0 = None \<longrightarrow>
            np_array vectors = Inr (the (embeddings (VectorStore st name_arg dir_arg d1))))"
proof (cases "texts = []")
  case True
  then have "s1 = s0" using assms(3) by (simp add: add_documents_def)
  then have "d1 = d0" using assms(2,4) by (simp add: persist_def)
  then show ?thesis using assms(1,2) True \<open>s1 = s0\<close> by (simp add: get_stats_def)
next
  case False
  let ?init = "\<lparr>collection_name = (case name_arg of
                                None \<Rightarrow> cfg_collection_name st
                              | Some n \<Rightarrow> if n \<noteq> [] then n else cfg_collection_name st),
           persist_directory = (case dir_arg of
                                  None \<Rightarrow> cfg_vector_store_path st
                                | Some p \<Rightarrow> if p \<noteq> [] then p else cfg_vector_store_path st),
           documents = [], embeddings = None, metadatas = [], ids = []\<rparr> :: 'a vector_store"
  have s0: "s0 = load ?init d0" using assms(1) by (simp add: VectorStore_def)
  have ci: "clear ?init = ?init" by (simp add: clear_def)
  note f = add_documents_fields[OF assms(3)]
  have docs: "documents s1 = texts" using f(3) assms(2) by simp
  obtain e where e: "embeddings s1 = Some e" using f(4)[OF False] by auto
  have "clear s1 = clear s0"
    using assms(3) False
    by (auto simp: add_documents_def Let_def clear_def split: sum.splits option.splits)
  also have "\<dots> = ?init" using s0 clear_load[of ?init d0] ci by simp
  finally have c: "clear s1 = ?init" .
  have "load (clear s1) d1 = s1"
    using docs False e assms(4) by (intro load_persist) simp_all
  then have r: "VectorStore st name_arg dir_arg d1 = s1"
    by (simp add: VectorStore_def c)
  show ?thesis
    using r docs add_documents_first[OF assms(3) False] by (simp add: get_stats_def)
qed

theorem persist_reload_roundtrip_witness:
  "document_count (get_stats (VectorStore default_settings None None
     (snd (persist
        (snd (projr (add_documents (\<lambda>k. ''u'') (VectorStore default_settings None None empty_disk)
                [''a'', ''b''] [[1, 0], [0, 1]] None None)))
        empty_disk)))) = 2"
proof -
  let ?s0 = "VectorStore default_settings None None empty_disk"
  have s0: "?s0 = \<lparr>collection_name = ''documents'', persist_directory = ''./data/vectorstore'',
      documents = [], embeddings = None, metadatas = [], ids = []\<rparr>"
    by (simp add: VectorStore_def default_settings_def load_def empty_disk_def)
  let ?s1 = "\<lparr>collection_name = ''documents'', persist_directory = ''./data/vectorstore'',
      documents = [''a'', ''b''], embeddings = Some (Arr2 2 [[1, 0], [0, 1]]),
      metadatas = [[], []], ids = [''u'', ''u'']\<rparr> :: unit vector_store"
  have a: "add_documents (\<lambda>k. ''u'') ?s0 [''a'', ''b''] [[1, 0], [0, 1]] None None =
           Inr ([''u'', ''u''], ?s1)"
    by (simp add: s0 add_documents_def upt_rec Let_def)
  have p: "persist ?s1 empty_disk = (None, snd (persist ?s1 empty_disk))"
    by (simp add: persist_def empty_disk_def Let_def)
  show ?thesis
    using persist_reload_roundtrip[OF refl _ a p] s0 a by simp
qed

end
